theory Spec2Isabelle
  imports Complex_Main "HOL-Library.Multiset"
begin

section \<open>Python values, errors and the random source\<close>

text \<open>
  The notebooks are Python. Every exception that the modelled code can raise is a value
  of \<open>error\<close>, and a function that can raise returns \<open>error + 'a\<close>.
  Image ids and class ids are the non-negative integers produced by \<open>enumerate\<close>,
  so they are \<open>nat\<close>. Floating-point numbers are modelled as real numbers; the one
  outcome that has no real counterpart, a division by a zero norm (numpy warns and
  yields \<open>nan\<close>), is kept apart as \<open>FloatingPointError\<close>.
\<close>

datatype error = IndexError | KeyError | ValueError | ZeroDivisionError | FloatingPointError

text \<open>
  The module \<open>random\<close> is modelled by an explicit source of raw draws that is threaded
  through every call: \<open>g 0\<close> is the next raw draw, \<open>rng_next g\<close> the source after it.
  Every outcome of a call of the library is the outcome of the model on some source.
  \<open>randbelow n\<close> is a number below \<open>n\<close>; it is only called with \<open>n > 0\<close>.
\<close>

type_synonym rng = "nat \<Rightarrow> nat"

definition rng_next :: "rng \<Rightarrow> rng" where
  "rng_next g = (\<lambda>i. g (Suc i))"

definition randbelow :: "nat \<Rightarrow> rng \<Rightarrow> nat \<times> rng" where
  "randbelow n g = (g 0 mod n, rng_next g)"

text \<open>\<open>random.choice(seq)\<close>: \<open>seq[randbelow(len(seq))]\<close>, IndexError on an empty sequence.\<close>

definition choice :: "'a list \<Rightarrow> rng \<Rightarrow> error + ('a \<times> rng)" where
  "choice xs g =
     (if xs = [] then Inl IndexError
      else (case randbelow (length xs) g of (j, g') \<Rightarrow> Inr (xs ! j, g')))"

text \<open>\<open>random.randint(a, b)\<close> on non-negative bounds: ValueError on an empty range.\<close>

definition randint :: "int \<Rightarrow> int \<Rightarrow> rng \<Rightarrow> error + (int \<times> rng)" where
  "randint a b g =
     (if b < a then Inl ValueError
      else (case randbelow (nat (b - a + 1)) g of (j, g') \<Rightarrow> Inr (a + int j, g')))"

text \<open>
  \<open>random.shuffle(x)\<close>:
  \<^verbatim>\<open>for i in reversed(range(1, len(x))): j = randbelow(i + 1); x[i], x[j] = x[j], x[i]\<close>
  The first argument of \<open>shuffle_from\<close> is \<open>i + 1\<close>.
\<close>

fun shuffle_from :: "nat \<Rightarrow> 'a list \<Rightarrow> rng \<Rightarrow> 'a list \<times> rng" where
  "shuffle_from 0 xs g = (xs, g)"
| "shuffle_from (Suc i) xs g =
     (if i = 0 then (xs, g)
      else (case randbelow (Suc i) g of
              (j, g') \<Rightarrow> shuffle_from i (xs[i := xs ! j, j := xs ! i]) g'))"

definition shuffle :: "'a list \<Rightarrow> rng \<Rightarrow> 'a list \<times> rng" where
  "shuffle xs g = shuffle_from (length xs) xs g"

text \<open>
  \<open>random.sample(population, k)\<close>: ValueError unless \<open>0 \<le> k \<le> len(population)\<close>;
  otherwise \<open>k\<close> elements taken at pairwise different positions:
  \<^verbatim>\<open>for i in range(k): j = randbelow(n - i); result[i] = pool[j]; pool[j] = pool[n - i - 1]\<close>
  The model keeps the live prefix \<open>pool[:n - i]\<close> as its list.
\<close>

fun sample_pool :: "nat \<Rightarrow> 'a list \<Rightarrow> rng \<Rightarrow> 'a list \<times> rng" where
  "sample_pool 0 pool g = ([], g)"
| "sample_pool (Suc k) pool g =
     (case randbelow (length pool) g of
        (j, g') \<Rightarrow>
          (case sample_pool k (butlast (pool[j := last pool])) g' of
             (rest, g'') \<Rightarrow> (pool ! j # rest, g'')))"

definition sample :: "'a list \<Rightarrow> int \<Rightarrow> rng \<Rightarrow> error + ('a list \<times> rng)" where
  "sample population k g =
     (if k < 0 \<or> int (length population) < k then Inl ValueError
      else Inr (sample_pool (nat k) population g))"

text \<open>The slice \<open>xs[:n]\<close>; a negative \<open>n\<close> counts from the end.\<close>

definition slice_to :: "int \<Rightarrow> 'a list \<Rightarrow> 'a list" where
  "slice_to n xs = (if 0 \<le> n then take (nat n) xs else take (length xs - nat (- n)) xs)"

text \<open>\<open>itertools.combinations(xs, 2)\<close>: the pairs of positions \<open>i < j\<close>, in lexicographic order.\<close>

fun combinations2 :: "'a list \<Rightarrow> ('a \<times> 'a) list" where
  "combinations2 [] = []"
| "combinations2 (x # xs) = map (Pair x) xs @ combinations2 xs"

section \<open>The pair sampler\<close>

text \<open>
  \<open>classid_to_ids\<close> and \<open>id_to_classid\<close> are the global dictionaries of the notebooks;
  the functions read them, so the model takes them as arguments.
  \<^verbatim>\<open>
  def build_pos_pairs_for_id(classid, max_num=50):
      imgs = classid_to_ids[classid]
      if len(imgs) == 1:
          return []
      pos_pairs = list(itertools.combinations(imgs, 2))
      random.shuffle(pos_pairs)
      return pos_pairs[:max_num]
  \<close>
\<close>

definition build_pos_pairs_for_id ::
  "(nat \<rightharpoonup> nat list) \<Rightarrow> nat \<Rightarrow> int \<Rightarrow> rng \<Rightarrow> error + ((nat \<times> nat) list \<times> rng)" where
  "build_pos_pairs_for_id classid_to_ids classid max_num g =
     (case classid_to_ids classid of
        None \<Rightarrow> Inl KeyError
      | Some imgs \<Rightarrow>
          if length imgs = 1 then Inr ([], g)
          else (case shuffle (combinations2 imgs) g of
                  (pos_pairs, g') \<Rightarrow> Inr (slice_to max_num pos_pairs, g')))"

text \<open>
  The siamese notebook's negative pairs:
  \<^verbatim>\<open>
  def build_neg_pairs_for_id(classid, classes, max_num=20):
      imgs = classid_to_ids[classid]
      neg_classes_ids = random.sample(classes, max_num+1)
      if classid in neg_classes_ids:
          neg_classes_ids.remove(classid)
      neg_pairs = []
      for id2 in range(max_num):
          img1 = imgs[random.randint(0, len(imgs) - 1)]
          imgs2 = classid_to_ids[neg_classes_ids[id2]]
          img2 = imgs2[random.randint(0, len(imgs2) - 1)]
          neg_pairs += [(img1, img2)]
      return neg_pairs
  \<close>
  \<open>neg_pairs_loop\<close> is the \<open>for\<close> loop over the values of \<open>id2\<close>.
\<close>

fun neg_pairs_loop ::
  "(nat \<rightharpoonup> nat list) \<Rightarrow> nat list \<Rightarrow> nat list \<Rightarrow> nat list \<Rightarrow> rng
     \<Rightarrow> error + ((nat \<times> nat) list \<times> rng)" where
  "neg_pairs_loop classid_to_ids imgs neg_classes_ids [] g = Inr ([], g)"
| "neg_pairs_loop classid_to_ids imgs neg_classes_ids (id2 # rest) g =
     (case randint 0 (int (length imgs) - 1) g of
        Inl e \<Rightarrow> Inl e
      | Inr (r1, g1) \<Rightarrow>
          if length neg_classes_ids \<le> id2 then Inl IndexError
          else (case classid_to_ids (neg_classes_ids ! id2) of
                  None \<Rightarrow> Inl KeyError
                | Some imgs2 \<Rightarrow>
                    (case randint 0 (int (length imgs2) - 1) g1 of
                       Inl e \<Rightarrow> Inl e
                     | Inr (r2, g2) \<Rightarrow>
                         (case neg_pairs_loop classid_to_ids imgs neg_classes_ids rest g2 of
                            Inl e \<Rightarrow> Inl e
                          | Inr (neg_pairs, g3) \<Rightarrow>
                              Inr ((imgs ! nat r1, imgs2 ! nat r2) # neg_pairs, g3)))))"

definition build_neg_pairs_for_id ::
  "(nat \<rightharpoonup> nat list) \<Rightarrow> nat \<Rightarrow> nat list \<Rightarrow> int \<Rightarrow> rng \<Rightarrow> error + ((nat \<times> nat) list \<times> rng)" where
  "build_neg_pairs_for_id classid_to_ids classid classes max_num g =
     (case classid_to_ids classid of
        None \<Rightarrow> Inl KeyError
      | Some imgs \<Rightarrow>
          (case sample classes (max_num + 1) g of
             Inl e \<Rightarrow> Inl e
           | Inr (sampled, g1) \<Rightarrow>
               neg_pairs_loop classid_to_ids imgs
                 (if classid \<in> set sampled then remove1 classid sampled else sampled)
                 [0..<nat max_num] g1))"

section \<open>Vectors, similarity and retrieval\<close>

text \<open>
  A one-dimensional numpy array of floats is a list of reals and a two-dimensional array
  is the list of its rows, which all have one length; so the vectors that \<open>dot\<close> and
  \<open>vsub\<close> pair up have equal lengths. \<open>np.dot\<close> of two vectors, \<open>np.linalg.norm\<close> of
  a vector, the difference of two vectors, and \<open>x / np.linalg.norm(x)\<close>:
\<close>

type_synonym vec = "real list"

type_synonym matrix = "real list list"

definition dot :: "vec \<Rightarrow> vec \<Rightarrow> real" where
  "dot u v = sum_list (map2 (*) u v)"

definition linalg_norm :: "vec \<Rightarrow> real" where
  "linalg_norm v = sqrt (sum_list (map (\<lambda>a. a\<^sup>2) v))"

definition vsub :: "vec \<Rightarrow> vec \<Rightarrow> vec" where
  "vsub u v = map2 (-) u v"

definition l2_normalize :: "vec \<Rightarrow> vec" where
  "l2_normalize v = map (\<lambda>a. a / linalg_norm v) v"

text \<open>
  \<open>np.argsort(xs)\<close>: the indices of \<open>xs\<close> in ascending order of their values. numpy
  leaves the order of equal values open; the model keeps equal values in index order.
\<close>

definition argsort :: "real list \<Rightarrow> nat list" where
  "argsort xs = sort_key (\<lambda>i. xs ! i) [0..<length xs]"

text \<open>The comprehension \<open>[(id, scores[id]) for id in ids]\<close>.\<close>

definition scored :: "real list \<Rightarrow> nat list \<Rightarrow> (nat \<times> real) list" where
  "scored scores ids = map (\<lambda>id. (id, scores ! id)) ids"

text \<open>
  The values of \<open>sims\<close> and \<open>dists\<close> in \<open>most_sim\<close>, for the query vector \<open>x\<close>:
  \<open>np.dot(emb, x / np.linalg.norm(x))\<close> and \<open>np.linalg.norm(emb - x, axis=-1)\<close>.
\<close>

definition cosine_sims :: "matrix \<Rightarrow> vec \<Rightarrow> real list" where
  "cosine_sims m x = map (\<lambda>e. dot e (l2_normalize x)) m"

definition euclidean_dists :: "matrix \<Rightarrow> vec \<Rightarrow> real list" where
  "euclidean_dists m x = map (\<lambda>e. linalg_norm (vsub e x)) m"

text \<open>
  \<^verbatim>\<open>
  def most_sim(idx, topn=5, mode="cosine"):
      x = emb[idx]
      if mode == "cosine":
          x = x / np.linalg.norm(x)
          sims = np.dot(emb, x)
          ids = np.argsort(sims)[::-1]
          return [(id,sims[id]) for id in ids[:topn]]
      elif mode == "euclidean":
          dists = np.linalg.norm(emb - x, axis=-1)
          ids = np.argsort(dists)
          return [(id,dists[id]) for id in ids[:topn]]
      else:
          dists = np.linalg.norm(pixelwise - pixelwise[idx], axis=-1)
          ids = np.argsort(dists)
          return [(id,dists[id]) for id in ids[:topn]]
  \<close>
  \<open>emb\<close> and \<open>pixelwise\<close> are globals of the notebook.
\<close>

definition most_sim ::
  "matrix \<Rightarrow> matrix \<Rightarrow> nat \<Rightarrow> int \<Rightarrow> string \<Rightarrow> error + (nat \<times> real) list" where
  "most_sim emb pixelwise idx topn mode =
     (if length emb \<le> idx then Inl IndexError
      else let x = emb ! idx in
        if mode = ''cosine'' then
          (if linalg_norm x = 0 then Inl FloatingPointError
           else let sims = cosine_sims emb x; ids = rev (argsort sims)
                in Inr (scored sims (slice_to topn ids)))
        else if mode = ''euclidean'' then
          (let dists = euclidean_dists emb x; ids = argsort dists
           in Inr (scored dists (slice_to topn ids)))
        else
          (if length pixelwise \<le> idx then Inl IndexError
           else let dists = euclidean_dists pixelwise (pixelwise ! idx); ids = argsort dists
                in Inr (scored dists (slice_to topn ids))))"

text \<open>
  The Totally-Looks-Like notebook:
  \<^verbatim>\<open>
  def most_similar(img, topn=5):
      img_batch = tf.expand_dims(open_image(img, target_shape=(224, 224)), 0)
      new_emb = loaded_model.predict(preprocess(img_batch))
      dists = tf.sqrt(tf.reduce_sum((all_embeddings - new_emb)**2, -1)).numpy()
      idxs = np.argsort(dists)[:topn]
      return [(negative_images[idx], dists[idx]) for idx in idxs]
  \<close>
  \<open>predict\<close> stands for opening, preprocessing and embedding one image with the loaded
  model; \<open>all_embeddings\<close> and \<open>negative_images\<close> are globals of the notebook.
\<close>

definition most_similar ::
  "('p \<Rightarrow> vec) \<Rightarrow> matrix \<Rightarrow> 'p list \<Rightarrow> 'p \<Rightarrow> int \<Rightarrow> error + ('p \<times> real) list" where
  "most_similar predict all_embeddings negative_images img topn =
     (let new_emb = predict img;
          dists = euclidean_dists all_embeddings new_emb;
          idxs = slice_to topn (argsort dists)
      in if \<exists>idx \<in> set idxs. length negative_images \<le> idx then Inl IndexError
         else Inr (map (\<lambda>idx. (negative_images ! idx, dists ! idx)) idxs))"


section \<open>Hard negative mining\<close>

text \<open>
  \<^verbatim>\<open>
  def intersect(a, b):
      return list(set(a) & set(b))
  \<close>
  The order in which Python lists the elements of a set is left open; the model lists
  them in the order of first occurrence in \<open>a\<close>.
\<close>

definition intersect :: "nat list \<Rightarrow> nat list \<Rightarrow> nat list" where
  "intersect a b = remdups (filter (\<lambda>x. x \<in> set b) a)"

text \<open>
  \<^verbatim>\<open>
  def build_negatives(anc_idxs, pos_idxs, similarities, neg_imgs_idx, num_retries=20):
      # If no similarities were computed, return a random negative
      if similarities is None:
          return random.sample(neg_imgs_idx,len(anc_idxs))
      final_neg = []
      # for each positive pair
      for (anc_idx, pos_idx) in zip(anc_idxs, pos_idxs):
          anchor_class = id_to_classid[anc_idx]
          #positive similarity
          sim = similarities[anc_idx, pos_idx]
          # find all negatives which are semi(hard)
          possible_ids = np.where((similarities[anc_idx] + 0.25) > sim)[0]
          possible_ids = intersect(neg_imgs_idx, possible_ids)
          appended = False
          for iteration in range(num_retries):
              if len(possible_ids) == 0:
                  break
              idx_neg = random.choice(possible_ids)
              if id_to_classid[idx_neg] != anchor_class:
                  final_neg.append(idx_neg)
                  appended = True
                  break
          if not appended:
              final_neg.append(random.choice(neg_imgs_idx))
      return final_neg
  \<close>
  \<open>retry_loop\<close> is the inner loop, with the number of iterations left (\<open>num_retries\<close> is
  a count); it returns the negative it appended, if any. \<open>possible_ids_of\<close> is the value of \<open>possible_ids\<close> when
  the inner loop starts. \<open>negative_for_pair\<close> is the body of the outer loop: the negative
  appended for one pair, together with the value of \<open>appended\<close> when it was chosen.
\<close>

fun retry_loop ::
  "(nat \<rightharpoonup> nat) \<Rightarrow> nat \<Rightarrow> nat list \<Rightarrow> nat \<Rightarrow> rng \<Rightarrow> error + (nat option \<times> rng)" where
  "retry_loop id_to_classid anchor_class possible_ids 0 g = Inr (None, g)"
| "retry_loop id_to_classid anchor_class possible_ids (Suc n) g =
     (if length possible_ids = 0 then Inr (None, g)
      else (case choice possible_ids g of
              Inl e \<Rightarrow> Inl e
            | Inr (idx_neg, g') \<Rightarrow>
                (case id_to_classid idx_neg of
                   None \<Rightarrow> Inl KeyError
                 | Some c \<Rightarrow>
                     if c \<noteq> anchor_class then Inr (Some idx_neg, g')
                     else retry_loop id_to_classid anchor_class possible_ids n g')))"

definition possible_ids_of :: "matrix \<Rightarrow> nat list \<Rightarrow> nat \<Rightarrow> nat \<Rightarrow> nat list" where
  "possible_ids_of similarities neg_imgs_idx anc_idx pos_idx =
     (let sim = similarities ! anc_idx ! pos_idx;
          row = similarities ! anc_idx;
          possible_ids = filter (\<lambda>j. row ! j + 0.25 > sim) [0..<length row]
      in intersect neg_imgs_idx possible_ids)"

definition negative_for_pair ::
  "(nat \<rightharpoonup> nat) \<Rightarrow> matrix \<Rightarrow> nat list \<Rightarrow> nat \<Rightarrow> nat \<Rightarrow> nat \<Rightarrow> rng
     \<Rightarrow> error + ((nat \<times> bool) \<times> rng)" where
  "negative_for_pair id_to_classid similarities neg_imgs_idx num_retries anc_idx pos_idx g =
     (case id_to_classid anc_idx of
        None \<Rightarrow> Inl KeyError
      | Some anchor_class \<Rightarrow>
          if length similarities \<le> anc_idx \<or> length (similarities ! anc_idx) \<le> pos_idx
          then Inl IndexError
          else (case retry_loop id_to_classid anchor_class
                       (possible_ids_of similarities neg_imgs_idx anc_idx pos_idx) num_retries g of
                  Inl e \<Rightarrow> Inl e
                | Inr (Some idx_neg, g') \<Rightarrow> Inr ((idx_neg, True), g')
                | Inr (None, g') \<Rightarrow>
                    (case choice neg_imgs_idx g' of
                       Inl e \<Rightarrow> Inl e
                     | Inr (idx_neg, g'') \<Rightarrow> Inr ((idx_neg, False), g''))))"

fun build_negatives_loop ::
  "(nat \<rightharpoonup> nat) \<Rightarrow> matrix \<Rightarrow> nat list \<Rightarrow> nat \<Rightarrow> (nat \<times> nat) list \<Rightarrow> rng
     \<Rightarrow> error + ((nat \<times> bool) list \<times> rng)" where
  "build_negatives_loop id_to_classid similarities neg_imgs_idx num_retries [] g = Inr ([], g)"
| "build_negatives_loop id_to_classid similarities neg_imgs_idx num_retries
       ((anc_idx, pos_idx) # rest) g =
     (case negative_for_pair id_to_classid similarities neg_imgs_idx num_retries anc_idx pos_idx g of
        Inl e \<Rightarrow> Inl e
      | Inr (neg, g1) \<Rightarrow>
          (case build_negatives_loop id_to_classid similarities neg_imgs_idx num_retries rest g1 of
             Inl e \<Rightarrow> Inl e
           | Inr (final_neg, g2) \<Rightarrow> Inr (neg # final_neg, g2)))"

text \<open>
  \<open>build_negatives_appended\<close> returns every negative with the value of \<open>appended\<close>
  (\<open>False\<close> for the random negatives of the first branch); \<open>build_negatives\<close> returns the
  negatives alone, as the source does. \<open>similarities\<close> is \<open>None\<close> or a matrix.
\<close>

definition build_negatives_appended ::
  "(nat \<rightharpoonup> nat) \<Rightarrow> nat list \<Rightarrow> nat list \<Rightarrow> matrix option \<Rightarrow> nat list \<Rightarrow> nat \<Rightarrow> rng
     \<Rightarrow> error + ((nat \<times> bool) list \<times> rng)" where
  "build_negatives_appended id_to_classid anc_idxs pos_idxs similarities neg_imgs_idx num_retries g =
     (case similarities of
        None \<Rightarrow>
          (case sample neg_imgs_idx (int (length anc_idxs)) g of
             Inl e \<Rightarrow> Inl e
           | Inr (negs, g') \<Rightarrow> Inr (map (\<lambda>n. (n, False)) negs, g'))
      | Some S \<Rightarrow>
          build_negatives_loop id_to_classid S neg_imgs_idx num_retries (zip anc_idxs pos_idxs) g)"

definition build_negatives ::
  "(nat \<rightharpoonup> nat) \<Rightarrow> nat list \<Rightarrow> nat list \<Rightarrow> matrix option \<Rightarrow> nat list \<Rightarrow> nat \<Rightarrow> rng
     \<Rightarrow> error + (nat list \<times> rng)" where
  "build_negatives id_to_classid anc_idxs pos_idxs similarities neg_imgs_idx num_retries g =
     (case build_negatives_appended id_to_classid anc_idxs pos_idxs similarities neg_imgs_idx
             num_retries g of
        Inl e \<Rightarrow> Inl e
      | Inr (final_neg, g') \<Rightarrow> Inr (map fst final_neg, g'))"

text \<open>
  \<open>draw xs g t\<close> is what \<open>random.choice(xs)\<close> returns on the raw draw number \<open>t\<close> of the
  source \<open>g\<close>. A pool member \<open>N\<close> is an acceptable candidate for the anchor \<open>A\<close> and the
  positive \<open>P\<close> when \<open>S[A,N] + margin > S[A,P]\<close>, the margin being 0.25, and the class of
  \<open>N\<close> differs from the class of \<open>A\<close>.
\<close>

definition draw :: "nat list \<Rightarrow> rng \<Rightarrow> nat \<Rightarrow> nat" where
  "draw xs g t = xs ! (g t mod length xs)"

definition acceptable :: "(nat \<rightharpoonup> nat) \<Rightarrow> matrix \<Rightarrow> nat list \<Rightarrow> nat \<Rightarrow> nat \<Rightarrow> nat \<Rightarrow> bool" where
  "acceptable i2c S pool A P N \<longleftrightarrow>
     N \<in> set pool \<and> N < length (S ! A) \<and> S ! A ! N + 0.25 > S ! A ! P \<and> i2c N \<noteq> i2c A"

text \<open>
  What it means for \<open>res\<close> to be the \<open>n\<close> best entries of \<open>scores\<close> under the order
  \<open>P\<close>: \<open>n\<close> pairs of pairwise different indices, each with its own score, listed in the
  order \<open>P\<close>, and every index left out scores no better than every index listed.
\<close>

definition top_by :: "(real \<Rightarrow> real \<Rightarrow> bool) \<Rightarrow> real list \<Rightarrow> nat \<Rightarrow> (nat \<times> real) list \<Rightarrow> bool" where
  "top_by P scores n res \<longleftrightarrow>
     length res = n \<and> distinct (map fst res)
     \<and> (\<forall>(i, s) \<in> set res. i < length scores \<and> s = scores ! i)
     \<and> sorted_wrt P (map snd res)
     \<and> (\<forall>j \<in> {0..<length scores}. j \<notin> fst ` set res \<longrightarrow> (\<forall>(i, s) \<in> set res. P s (scores ! j)))"

section \<open>Recall at k\<close>

text \<open>
  \<^verbatim>\<open>
  test_ids = []
  for class_id in range(split_num, num_classes-1):
      img_ids = classid_to_ids[class_id]
      if len(img_ids) > 1:
          test_ids += img_ids
  \<close>
\<close>

fun test_ids_loop :: "(nat \<rightharpoonup> nat list) \<Rightarrow> nat list \<Rightarrow> nat list \<Rightarrow> error + nat list" where
  "test_ids_loop classid_to_ids [] test_ids = Inr test_ids"
| "test_ids_loop classid_to_ids (class_id # rest) test_ids =
     (case classid_to_ids class_id of
        None \<Rightarrow> Inl KeyError
      | Some img_ids \<Rightarrow>
          test_ids_loop classid_to_ids rest
            (if length img_ids > 1 then test_ids @ img_ids else test_ids))"

definition build_test_ids :: "(nat \<rightharpoonup> nat list) \<Rightarrow> nat \<Rightarrow> nat \<Rightarrow> error + nat list" where
  "build_test_ids classid_to_ids split_num num_classes =
     test_ids_loop classid_to_ids [split_num..<num_classes - 1] []"

text \<open>The comprehension \<open>[id_to_classid[x] for x in xs]\<close>.\<close>

fun lookup_all :: "(nat \<rightharpoonup> nat) \<Rightarrow> nat list \<Rightarrow> error + nat list" where
  "lookup_all id_to_classid [] = Inr []"
| "lookup_all id_to_classid (x # xs) =
     (case id_to_classid x of
        None \<Rightarrow> Inl KeyError
      | Some c \<Rightarrow>
          (case lookup_all id_to_classid xs of
             Inl e \<Rightarrow> Inl e
           | Inr cs \<Rightarrow> Inr (c # cs)))"

text \<open>
  \<^verbatim>\<open>
  def recall_k(k=10, mode="embedding"):
      num_found = 0
      for img_idx in test_ids:
          image_class = id_to_classid[img_idx]
          found_classes = []
          if mode == "embedding":
              found_classes = [id_to_classid[x] for (x, score) in most_sim(img_idx, topn=k+1)[1:]]
          elif mode == "random":
              found_classes = [id_to_classid[x] for x in random.sample(
                  list(set(all_img_test_idx + all_img_train_idx) - {img_idx}), k)]
          elif mode == "image":
              found_classes = [id_to_classid[x] for (x, score) in most_sim(img_idx, topn=k+1, mode="image")[1:]]
          if image_class in found_classes:
              num_found += 1
      return num_found / len(test_ids)
  \<close>
  \<open>found_classes_of\<close> is the value of \<open>found_classes\<close> for one query, \<open>recall_loop\<close> is the
  loop with the running value of \<open>num_found\<close>. The globals \<open>id_to_classid\<close>, \<open>emb\<close>,
  \<open>pixelwise\<close>, \<open>test_ids\<close>, \<open>all_img_test_idx\<close> and \<open>all_img_train_idx\<close> are arguments.
\<close>

definition found_classes_of ::
  "(nat \<rightharpoonup> nat) \<Rightarrow> matrix \<Rightarrow> matrix \<Rightarrow> nat list \<Rightarrow> nat list \<Rightarrow> int \<Rightarrow> string \<Rightarrow> nat \<Rightarrow> rng
     \<Rightarrow> error + (nat list \<times> rng)" where
  "found_classes_of id_to_classid emb pixelwise all_img_test_idx all_img_train_idx k mode img_idx g =
     (if mode = ''embedding'' then
        (case most_sim emb pixelwise img_idx (k + 1) ''cosine'' of
           Inl e \<Rightarrow> Inl e
         | Inr res \<Rightarrow>
             (case lookup_all id_to_classid (map fst (drop 1 res)) of
                Inl e \<Rightarrow> Inl e
              | Inr found_classes \<Rightarrow> Inr (found_classes, g)))
      else if mode = ''random'' then
        (case sample (remdups (filter (\<lambda>x. x \<noteq> img_idx) (all_img_test_idx @ all_img_train_idx))) k g of
           Inl e \<Rightarrow> Inl e
         | Inr (xs, g') \<Rightarrow>
             (case lookup_all id_to_classid xs of
                Inl e \<Rightarrow> Inl e
              | Inr found_classes \<Rightarrow> Inr (found_classes, g')))
      else if mode = ''image'' then
        (case most_sim emb pixelwise img_idx (k + 1) ''image'' of
           Inl e \<Rightarrow> Inl e
         | Inr res \<Rightarrow>
             (case lookup_all id_to_classid (map fst (drop 1 res)) of
                Inl e \<Rightarrow> Inl e
              | Inr found_classes \<Rightarrow> Inr (found_classes, g)))
      else Inr ([], g))"

fun recall_loop ::
  "(nat \<rightharpoonup> nat) \<Rightarrow> matrix \<Rightarrow> matrix \<Rightarrow> nat list \<Rightarrow> nat list \<Rightarrow> int \<Rightarrow> string \<Rightarrow> nat list \<Rightarrow> nat \<Rightarrow> rng
     \<Rightarrow> error + (nat \<times> rng)" where
  "recall_loop id_to_classid emb pixelwise all_img_test_idx all_img_train_idx k mode [] num_found g =
     Inr (num_found, g)"
| "recall_loop id_to_classid emb pixelwise all_img_test_idx all_img_train_idx k mode
       (img_idx # rest) num_found g =
     (case id_to_classid img_idx of
        None \<Rightarrow> Inl KeyError
      | Some image_class \<Rightarrow>
          (case found_classes_of id_to_classid emb pixelwise all_img_test_idx all_img_train_idx
                  k mode img_idx g of
             Inl e \<Rightarrow> Inl e
           | Inr (found_classes, g') \<Rightarrow>
               recall_loop id_to_classid emb pixelwise all_img_test_idx all_img_train_idx k mode rest
                 (if image_class \<in> set found_classes then num_found + 1 else num_found) g'))"

definition recall_k ::
  "(nat \<rightharpoonup> nat) \<Rightarrow> matrix \<Rightarrow> matrix \<Rightarrow> nat list \<Rightarrow> nat list \<Rightarrow> nat list \<Rightarrow> int \<Rightarrow> string \<Rightarrow> rng
     \<Rightarrow> error + (real \<times> rng)" where
  "recall_k id_to_classid emb pixelwise test_ids all_img_test_idx all_img_train_idx k mode g =
     (case recall_loop id_to_classid emb pixelwise all_img_test_idx all_img_train_idx k mode
             test_ids 0 g of
        Inl e \<Rightarrow> Inl e
      | Inr (num_found, g') \<Rightarrow>
          if length test_ids = 0 then Inl ZeroDivisionError
          else Inr (real num_found / real (length test_ids), g'))"

text \<open>
  Recall at \<open>k\<close> as the specification words it: the fraction of the test queries for which
  an image of the query's own class is among the \<open>k\<close> most similar images, the query
  itself left out of the ranking.
\<close>

definition retrieved_topk :: "matrix \<Rightarrow> nat \<Rightarrow> nat \<Rightarrow> nat list" where
  "retrieved_topk emb img_idx k =
     take k (filter (\<lambda>i. i \<noteq> img_idx) (rev (argsort (cosine_sims emb (emb ! img_idx)))))"

definition recall_k_spec :: "(nat \<rightharpoonup> nat) \<Rightarrow> matrix \<Rightarrow> nat list \<Rightarrow> nat \<Rightarrow> real" where
  "recall_k_spec id_to_classid emb test_ids k =
     real (length (filter (\<lambda>q. \<exists>x \<in> set (retrieved_topk emb q k). id_to_classid x = id_to_classid q)
                     test_ids))
     / real (length test_ids)"

section \<open>The triplet generator\<close>

text \<open>
  \<^verbatim>\<open>
  class TripletGenerator(tf.keras.utils.Sequence):
      def __init__(self, Xa_train, Xp_train, batch_size, all_imgs, neg_imgs_idx):
          self.cur_img_index = 0
          self.cur_img_pos_index = 0
          self.batch_size = batch_size
          self.imgs = all_imgs
          self.Xa = Xa_train  # Anchors
          self.Xp = Xp_train
          self.cur_train_index = 0
          self.num_samples = Xa_train.shape[0]
          self.neg_imgs_idx = neg_imgs_idx

      def __len__(self):
          return self.num_samples // self.batch_size

      def __getitem__(self, batch_index):
          low_index = batch_index * self.batch_size
          high_index = (batch_index + 1) * self.batch_size
          imgs_a = self.Xa[low_index:high_index]  # Anchors
          imgs_p = self.Xp[low_index:high_index]  # Positives
          imgs_n = random.sample(self.neg_imgs_idx, imgs_a.shape[0])  # Negatives
          imgs_a = seq.augment_images(self.imgs[imgs_a])
          imgs_p = seq.augment_images(self.imgs[imgs_p])
          imgs_n = seq.augment_images(self.imgs[imgs_n])
          # We also a null vector as placeholder for output, but it won't be needed:
          return ([imgs_a, imgs_p, imgs_n], np.zeros(shape=(imgs_a.shape[0])))
  \<close>
  Batch sizes and batch indices are counts. \<open>index_all\<close> is the indexing \<open>self.imgs[ids]\<close>
  of an array by a list of indices. The augmentation \<open>seq.augment_images\<close> flips some of
  the images and returns as many images as it is given; the model leaves the pixels alone.
\<close>

record 'img TripletGenerator =
  cur_img_index :: nat
  cur_img_pos_index :: nat
  batch_size :: nat
  imgs :: "'img list"
  Xa :: "nat list"
  Xp :: "nat list"
  cur_train_index :: nat
  num_samples :: nat
  neg_imgs_idx :: "nat list"

definition TripletGenerator_init ::
  "nat list \<Rightarrow> nat list \<Rightarrow> nat \<Rightarrow> 'img list \<Rightarrow> nat list \<Rightarrow> 'img TripletGenerator" where
  "TripletGenerator_init Xa_train Xp_train b all_imgs neg =
     \<lparr>cur_img_index = 0, cur_img_pos_index = 0, batch_size = b, imgs = all_imgs,
      Xa = Xa_train, Xp = Xp_train, cur_train_index = 0, num_samples = length Xa_train,
      neg_imgs_idx = neg\<rparr>"

definition TripletGenerator_len :: "'img TripletGenerator \<Rightarrow> error + nat" where
  "TripletGenerator_len self =
     (if batch_size self = 0 then Inl ZeroDivisionError
      else Inr (num_samples self div batch_size self))"

definition slice :: "nat \<Rightarrow> nat \<Rightarrow> 'a list \<Rightarrow> 'a list" where
  "slice low high xs = take (high - low) (drop low xs)"

definition index_all :: "'a list \<Rightarrow> nat list \<Rightarrow> error + 'a list" where
  "index_all xs ids =
     (if \<exists>i \<in> set ids. length xs \<le> i then Inl IndexError else Inr (map ((!) xs) ids))"

definition TripletGenerator_getitem ::
  "'img TripletGenerator \<Rightarrow> nat \<Rightarrow> rng \<Rightarrow> error + (('img list list \<times> real list) \<times> rng)" where
  "TripletGenerator_getitem self batch_index g =
     (let low_index = batch_index * batch_size self;
          high_index = (batch_index + 1) * batch_size self;
          imgs_a = slice low_index high_index (Xa self);
          imgs_p = slice low_index high_index (Xp self)
      in case sample (neg_imgs_idx self) (int (length imgs_a)) g of
           Inl e \<Rightarrow> Inl e
         | Inr (imgs_n, g') \<Rightarrow>
             (case index_all (imgs self) imgs_a of
                Inl e \<Rightarrow> Inl e
              | Inr a \<Rightarrow>
                  (case index_all (imgs self) imgs_p of
                     Inl e \<Rightarrow> Inl e
                   | Inr p \<Rightarrow>
                       (case index_all (imgs self) imgs_n of
                          Inl e \<Rightarrow> Inl e
                        | Inr n \<Rightarrow> Inr (([a, p, n], replicate (length a) 0), g')))))"

section \<open>Properties of the random source\<close>

lemma randbelow_less: "0 < n \<Longrightarrow> fst (randbelow n g) < n"
  by (simp add: randbelow_def)

lemma shuffle_from_mset: "n \<le> length xs \<Longrightarrow> mset (fst (shuffle_from n xs g)) = mset xs"
proof (induction n arbitrary: xs g)
  case 0
  then show ?case by simp
next
  case (Suc i)
  show ?case
  proof (cases "i = 0")
    case True
    then show ?thesis by simp
  next
    case False
    obtain j g' where r: "randbelow (Suc i) g = (j, g')" by (cases "randbelow (Suc i) g")
    have "j < Suc i" using randbelow_less [of "Suc i" g] r by simp
    with Suc.prems have jl: "j < length xs" and il: "i < length xs" by simp_all
    have sw: "mset (xs[i := xs ! j, j := xs ! i]) = mset xs"
      using mset_swap [OF jl il] by simp
    have "mset (fst (shuffle_from i (xs[i := xs ! j, j := xs ! i]) g')) =
          mset (xs[i := xs ! j, j := xs ! i])"
      using Suc.IH [of "xs[i := xs ! j, j := xs ! i]" g'] il by simp
    with sw False r show ?thesis by simp
  qed
qed

lemma shuffle_mset: "mset (fst (shuffle xs g)) = mset xs"
  by (simp add: shuffle_def shuffle_from_mset)

lemma shuffle_set: "set (fst (shuffle xs g)) = set xs"
  using shuffle_mset [of xs g] by (metis set_mset_mset)

lemma shuffle_length: "length (fst (shuffle xs g)) = length xs"
  using shuffle_mset [of xs g] by (metis size_mset)

lemma combinations2_set:
  "set (combinations2 xs) \<subseteq> set xs \<times> set xs"
  by (induction xs) auto

lemma combinations2_distinct:
  "distinct xs \<Longrightarrow> (a, b) \<in> set (combinations2 xs) \<Longrightarrow> a \<noteq> b"
proof (induction xs)
  case Nil
  then show ?case by simp
next
  case (Cons x xs)
  then show ?case using combinations2_set [of xs] by auto
qed

lemma slice_to_set: "set (slice_to n xs) \<subseteq> set xs"
  by (auto simp: slice_to_def dest: in_set_takeD)

lemma slice_to_length: "0 \<le> n \<Longrightarrow> length (slice_to n xs) = min (nat n) (length xs)"
  by (simp add: slice_to_def)

lemma randint_range:
  "a \<le> b \<Longrightarrow> \<exists>r g'. randint a b g = Inr (r, g') \<and> a \<le> r \<and> r \<le> b"
proof -
  assume ab: "a \<le> b"
  obtain j g' where r: "randbelow (nat (b - a + 1)) g = (j, g')"
    by (cases "randbelow (nat (b - a + 1)) g")
  have "j < nat (b - a + 1)" using randbelow_less [of "nat (b - a + 1)" g] r ab by simp
  then have "a + int j \<le> b" using ab by linarith
  with ab r show ?thesis by (simp add: randint_def)
qed

lemma sample_pool_length: "length (fst (sample_pool k pool g)) = k"
proof (induction k arbitrary: pool g)
  case 0
  then show ?case by simp
next
  case (Suc k)
  obtain j g' where r: "randbelow (length pool) g = (j, g')"
    by (cases "randbelow (length pool) g")
  obtain rest g'' where rec: "sample_pool k (butlast (pool[j := last pool])) g' = (rest, g'')"
    by (cases "sample_pool k (butlast (pool[j := last pool])) g'")
  have "length rest = k" using Suc.IH [of "butlast (pool[j := last pool])" g'] rec by simp
  with r rec show ?case by simp
qed

lemma mset_subset_distinct:
  assumes "mset xs \<subseteq># mset ys" and "distinct ys"
  shows "distinct xs"
proof -
  have "count (mset xs) a = (if a \<in> set xs then 1 else 0)" for a
  proof (cases "a \<in> set xs")
    case True
    then have "a \<in># mset xs" by simp
    then have "0 < count (mset xs) a" by (simp only: count_greater_zero_iff)
    moreover have "count (mset xs) a \<le> count (mset ys) a"
      using assms(1) by (rule mset_subset_eq_count)
    moreover have "count (mset ys) a \<le> 1"
      using assms(2) by (simp add: distinct_count_atmost_1)
    ultimately have "count (mset xs) a = 1" by linarith
    with True show ?thesis by simp
  next
    case False
    then show ?thesis by (simp add: count_eq_zero_iff)
  qed
  then show ?thesis by (simp add: distinct_count_atmost_1)
qed

lemma mset_drop_at:
  assumes "j < length xs"
  shows "mset (butlast (xs[j := last xs])) + {#xs ! j#} = mset xs"
proof (cases xs rule: rev_cases)
  case Nil
  with assms show ?thesis by simp
next
  case (snoc ys l)
  show ?thesis
  proof (cases "j = length ys")
    case True
    with snoc show ?thesis by simp
  next
    case False
    with assms snoc have jl: "j < length ys" by simp
    then have "xs[j := last xs] = ys[j := l] @ [l]" using snoc by (simp add: list_update_append)
    then have "butlast (xs[j := last xs]) = ys[j := l]" by simp
    moreover have "xs ! j = ys ! j" using snoc jl by (simp add: nth_append)
    ultimately show ?thesis using snoc jl by (simp add: mset_update)
  qed
qed

lemma sample_pool_mset:
  "k \<le> length pool \<Longrightarrow> mset (fst (sample_pool k pool g)) \<subseteq># mset pool"
proof (induction k arbitrary: pool g)
  case 0
  then show ?case by simp
next
  case (Suc k)
  obtain j g' where r: "randbelow (length pool) g = (j, g')"
    by (cases "randbelow (length pool) g")
  have "0 < length pool" using Suc.prems by linarith
  then have jl: "j < length pool" using randbelow_less [of "length pool" g] r by simp
  let ?p = "butlast (pool[j := last pool])"
  obtain rest g'' where rec: "sample_pool k ?p g' = (rest, g'')"
    by (cases "sample_pool k ?p g'")
  have "k \<le> length ?p" using Suc.prems by simp
  then have "mset rest \<subseteq># mset ?p" using Suc.IH [of ?p g'] rec by simp
  then have "mset rest + {#pool ! j#} \<subseteq># mset ?p + {#pool ! j#}" by simp
  then have "mset rest + {#pool ! j#} \<subseteq># mset pool" by (simp only: mset_drop_at [OF jl])
  then have "mset (pool ! j # rest) \<subseteq># mset pool" by simp
  with r rec show ?case by simp
qed

lemma sample_pool_set: "k \<le> length pool \<Longrightarrow> set (fst (sample_pool k pool g)) \<subseteq> set pool"
  using sample_pool_mset [of k pool g] set_mset_mono by fastforce

lemma sample_pool_distinct:
  "k \<le> length pool \<Longrightarrow> distinct pool \<Longrightarrow> distinct (fst (sample_pool k pool g))"
  using sample_pool_mset [of k pool g] mset_subset_distinct by blast

lemma sample_ok:
  assumes "0 \<le> k" and "k \<le> int (length population)"
  shows "\<exists>s g'. sample population k g = Inr (s, g') \<and> length s = nat k
           \<and> set s \<subseteq> set population \<and> (distinct population \<longrightarrow> distinct s)"
proof -
  obtain s g' where sp: "sample_pool (nat k) population g = (s, g')"
    by (cases "sample_pool (nat k) population g")
  have le: "nat k \<le> length population" using assms by linarith
  have "length s = nat k" using sample_pool_length [of "nat k" population g] sp by simp
  moreover have "set s \<subseteq> set population" using sample_pool_set [OF le, of g] sp by simp
  moreover have "distinct population \<longrightarrow> distinct s"
    using sample_pool_distinct [OF le, of g] sp by simp
  moreover have "sample population k g = Inr (s, g')" using assms sp by (simp add: sample_def)
  ultimately show ?thesis by blast
qed

lemma neg_pairs_loop_ok:
  assumes "ims \<noteq> []"
    and "\<forall>i \<in> set ids. i < length neg"
    and "\<forall>c \<in> set neg. \<exists>is. classid_to_ids c = Some is \<and> is \<noteq> []"
  shows "\<exists>ps g'. neg_pairs_loop classid_to_ids ims neg ids g = Inr (ps, g')
           \<and> length ps = length ids
           \<and> (\<forall>(a, b) \<in> set ps. a \<in> set ims
                 \<and> (\<exists>c \<in> set neg. \<exists>is. classid_to_ids c = Some is \<and> b \<in> set is))"
  using assms(2)
proof (induction ids arbitrary: g)
  case Nil
  then show ?case by simp
next
  case (Cons id2 rest)
  have "(0::int) \<le> int (length ims) - 1" using assms(1) by (cases ims) simp_all
  then obtain r1 g1 where r1: "randint 0 (int (length ims) - 1) g = Inr (r1, g1)"
    and b1: "0 \<le> r1" "r1 \<le> int (length ims) - 1"
    using randint_range [of 0 "int (length ims) - 1" g] by blast
  have a: "ims ! nat r1 \<in> set ims" using b1 by (simp add: nat_less_iff)
  have il: "id2 < length neg" using Cons.prems by simp
  then have cm: "neg ! id2 \<in> set neg" by simp
  then obtain imgs2 where i2: "classid_to_ids (neg ! id2) = Some imgs2" and ne2: "imgs2 \<noteq> []"
    using assms(3) by blast
  have "(0::int) \<le> int (length imgs2) - 1" using ne2 by (cases imgs2) simp_all
  then obtain r2 g2 where r2: "randint 0 (int (length imgs2) - 1) g1 = Inr (r2, g2)"
    and b2: "0 \<le> r2" "r2 \<le> int (length imgs2) - 1"
    using randint_range [of 0 "int (length imgs2) - 1" g1] by blast
  have b: "imgs2 ! nat r2 \<in> set imgs2" using b2 by (simp add: nat_less_iff)
  obtain ps g3 where rec: "neg_pairs_loop classid_to_ids ims neg rest g2 = Inr (ps, g3)"
    and len: "length ps = length rest"
    and each: "\<forall>(a, b) \<in> set ps. a \<in> set ims
                 \<and> (\<exists>c \<in> set neg. \<exists>is. classid_to_ids c = Some is \<and> b \<in> set is)"
    using Cons.IH [of g2] Cons.prems by auto
  have res: "neg_pairs_loop classid_to_ids ims neg (id2 # rest) g =
             Inr ((ims ! nat r1, imgs2 ! nat r2) # ps, g3)"
    using r1 il i2 r2 rec by simp
  have hd: "\<exists>c \<in> set neg. \<exists>is. classid_to_ids c = Some is \<and> imgs2 ! nat r2 \<in> set is"
    using cm i2 b by blast
  show ?case using res len each a hd by simp
qed

section \<open>Properties of ranking and of normalised vectors\<close>

lemma argsort_set: "set (argsort xs) = {0..<length xs}"
  by (simp add: argsort_def)

lemma argsort_distinct: "distinct (argsort xs)"
  by (simp add: argsort_def)

lemma argsort_length: "length (argsort xs) = length xs"
  by (simp add: argsort_def)

lemma argsort_sorted: "sorted (map ((!) xs) (argsort xs))"
  unfolding argsort_def by (rule sorted_sort_key)

lemma argsort_rev_sorted: "sorted_wrt (\<ge>) (map ((!) xs) (rev (argsort xs)))"
  using argsort_sorted [of xs] by (simp add: rev_map [symmetric] sorted_wrt_rev)

lemma top_by_take:
  assumes srt: "sorted_wrt P (map ((!) scores) ids)"
    and dis: "distinct ids"
    and st: "set ids = {0..<length scores}"
    and n: "n \<le> length ids"
  shows "top_by P scores n (scored scores (take n ids))"
proof -
  let ?t = "take n ids" and ?d = "drop n ids"
  have fsts: "map fst (scored scores ?t) = ?t" by (simp add: scored_def comp_def)
  have snds: "map snd (scored scores ?t) = take n (map ((!) scores) ids)"
    by (simp add: scored_def comp_def take_map)
  have 1: "length (scored scores ?t) = n" using n by (simp add: scored_def)
  have 2: "distinct (map fst (scored scores ?t))" using dis by (simp add: fsts)
  have sub: "set ?t \<subseteq> {0..<length scores}" using st set_take_subset [of n ids] by simp
  have 3: "\<forall>(i, s) \<in> set (scored scores ?t). i < length scores \<and> s = scores ! i"
    using sub by (auto simp: scored_def)
  have 4: "sorted_wrt P (map snd (scored scores ?t))"
    using srt by (simp only: snds sorted_wrt_take)
  have "sorted_wrt P (map ((!) scores) ?t @ map ((!) scores) ?d)"
    using srt by (simp only: map_append [symmetric] append_take_drop_id)
  then have cross: "\<forall>a \<in> set ?t. \<forall>b \<in> set ?d. P (scores ! a) (scores ! b)"
    by (simp add: sorted_wrt_append)
  have 5: "\<forall>j \<in> {0..<length scores}. j \<notin> fst ` set (scored scores ?t) \<longrightarrow>
             (\<forall>(i, s) \<in> set (scored scores ?t). P s (scores ! j))"
  proof (rule ballI, rule impI)
    fix j assume "j \<in> {0..<length scores}" and jn: "j \<notin> fst ` set (scored scores ?t)"
    then have jl: "j < length scores" by simp
    have "fst ` set (scored scores ?t) = set ?t" using fsts by (metis set_map)
    with jn have "j \<notin> set ?t" by simp
    moreover have "j \<in> set (?t @ ?d)" using jl st by simp
    ultimately have "j \<in> set ?d" by (simp only: set_append Un_iff) simp
    with cross show "\<forall>(i, s) \<in> set (scored scores ?t). P s (scores ! j)"
      by (auto simp: scored_def)
  qed
  show ?thesis unfolding top_by_def using 1 2 3 4 5 by blast
qed

lemma top_by_argsort:
  "n \<le> length xs \<Longrightarrow> top_by (\<le>) xs n (scored xs (take n (argsort xs)))"
  by (rule top_by_take) (simp_all add: argsort_sorted argsort_distinct argsort_set argsort_length)

lemma top_by_argsort_rev:
  "n \<le> length xs \<Longrightarrow> top_by (\<ge>) xs n (scored xs (take n (rev (argsort xs))))"
  by (rule top_by_take) (simp_all add: argsort_rev_sorted argsort_distinct argsort_set argsort_length)

lemma slice_to_nonneg: "0 \<le> n \<Longrightarrow> slice_to n xs = take (nat n) xs"
  by (simp add: slice_to_def)







section \<open>Properties of hard negative mining\<close>

lemma choice_ok: "xs \<noteq> [] \<Longrightarrow> choice xs g = Inr (draw xs g 0, rng_next g)"
  by (simp add: choice_def randbelow_def draw_def)

lemma draw_in_set: "xs \<noteq> [] \<Longrightarrow> draw xs g t \<in> set xs"
  by (simp add: draw_def)

lemma draw_rng_next: "draw xs (rng_next g) t = draw xs g (Suc t)"
  by (simp add: draw_def rng_next_def)

lemma retry_loop_empty: "retry_loop i2c c [] n g = Inr (None, g)"
  by (cases n) simp_all

lemma retry_loop_Some:
  "retry_loop i2c c possible n g = Inr (Some N, g') \<Longrightarrow>
   N \<in> set possible \<and> (\<exists>cN. i2c N = Some cN \<and> cN \<noteq> c)"
proof (induction n arbitrary: g)
  case 0
  then show ?case by simp
next
  case (Suc n)
  show ?case
  proof (cases "possible = []")
    case True
    with Suc.prems show ?thesis by simp
  next
    case False
    have ch: "choice possible g = Inr (draw possible g 0, rng_next g)"
      using False by (rule choice_ok)
    show ?thesis
    proof (cases "i2c (draw possible g 0)")
      case None
      with Suc.prems False ch show ?thesis by simp
    next
      case (Some cj)
      show ?thesis
      proof (cases "cj = c")
        case True
        with Suc.prems False ch Some
        have "retry_loop i2c c possible n (rng_next g) = Inr (Some N, g')" by simp
        then show ?thesis by (rule Suc.IH)
      next
        case neq: False
        with Suc.prems False ch Some have "N = draw possible g 0" by simp
        with False Some neq show ?thesis by (simp add: draw_in_set)
      qed
    qed
  qed
qed

lemma retry_loop_cases:
  assumes ne: "possible \<noteq> []" and dm: "set possible \<subseteq> dom i2c"
  shows "(\<exists>t<n. i2c (draw possible g t) \<noteq> Some c
            \<and> (\<forall>u<t. i2c (draw possible g u) = Some c)
            \<and> retry_loop i2c c possible n g = Inr (Some (draw possible g t), (\<lambda>i. g (i + Suc t))))
       \<or> ((\<forall>t<n. i2c (draw possible g t) = Some c)
            \<and> retry_loop i2c c possible n g = Inr (None, (\<lambda>i. g (i + n))))"
proof (induction n arbitrary: g)
  case 0
  show ?case by simp
next
  case (Suc n)
  have ch: "choice possible g = Inr (draw possible g 0, rng_next g)" using ne by (rule choice_ok)
  have "draw possible g 0 \<in> dom i2c" using ne dm draw_in_set by blast
  then obtain cj where cj: "i2c (draw possible g 0) = Some cj" by blast
  show ?case
  proof (cases "cj = c")
    case False
    have "retry_loop i2c c possible (Suc n) g = Inr (Some (draw possible g 0), (\<lambda>i. g (i + Suc 0)))"
      using ne ch cj False by (simp add: rng_next_def)
    moreover have "i2c (draw possible g 0) \<noteq> Some c" using cj False by simp
    ultimately show ?thesis by blast
  next
    case True
    have step: "retry_loop i2c c possible (Suc n) g = retry_loop i2c c possible n (rng_next g)"
      using ne ch cj True by simp
    from Suc.IH [of "rng_next g"] show ?thesis
    proof (elim disjE exE conjE)
      fix t assume t: "t < n"
        and d: "i2c (draw possible (rng_next g) t) \<noteq> Some c"
        and b: "\<forall>u<t. i2c (draw possible (rng_next g) u) = Some c"
        and r: "retry_loop i2c c possible n (rng_next g) =
                Inr (Some (draw possible (rng_next g) t), (\<lambda>i. rng_next g (i + Suc t)))"
      have b': "\<forall>u<Suc t. i2c (draw possible g u) = Some c"
      proof (intro allI impI)
        fix u assume "u < Suc t"
        then show "i2c (draw possible g u) = Some c"
          using b cj True by (cases u) (simp_all add: draw_rng_next)
      qed
      have e1: "(\<lambda>i. rng_next g (i + Suc t)) = (\<lambda>i. g (i + Suc (Suc t)))"
        by (simp add: rng_next_def)
      have "retry_loop i2c c possible (Suc n) g =
            Inr (Some (draw possible g (Suc t)), (\<lambda>i. g (i + Suc (Suc t))))"
        using r by (simp only: step e1 draw_rng_next)
      moreover have "i2c (draw possible g (Suc t)) \<noteq> Some c" using d by (simp add: draw_rng_next)
      moreover have "Suc t < Suc n" using t by simp
      ultimately show ?thesis using b' by blast
    next
      assume a: "\<forall>t<n. i2c (draw possible (rng_next g) t) = Some c"
        and r: "retry_loop i2c c possible n (rng_next g) = Inr (None, (\<lambda>i. rng_next g (i + n)))"
      have a': "\<forall>t<Suc n. i2c (draw possible g t) = Some c"
      proof (intro allI impI)
        fix t assume "t < Suc n"
        then show "i2c (draw possible g t) = Some c"
          using a cj True by (cases t) (simp_all add: draw_rng_next)
      qed
      have e2: "(\<lambda>i. rng_next g (i + n)) = (\<lambda>i. g (i + Suc n))"
        by (simp add: rng_next_def)
      have "retry_loop i2c c possible (Suc n) g = Inr (None, (\<lambda>i. g (i + Suc n)))"
        using r by (simp only: step e2)
      with a' show ?thesis by blast
    qed
  qed
qed

lemma intersect_set: "set (intersect a b) = set a \<inter> set b"
  by (auto simp: intersect_def)

lemma possible_ids_of_set:
  "x \<in> set (possible_ids_of S pool A P) \<longleftrightarrow>
   x \<in> set pool \<and> x < length (S ! A) \<and> S ! A ! x + 0.25 > S ! A ! P"
  by (auto simp: possible_ids_of_def intersect_set Let_def)

lemma negative_for_pair_appended:
  assumes "negative_for_pair i2c S pool n A P g = Inr ((N, True), g')"
  shows "N \<in> set pool \<and> N < length (S ! A) \<and> S ! A ! N + 0.25 > S ! A ! P
         \<and> (\<exists>cN cA. i2c N = Some cN \<and> i2c A = Some cA \<and> cN \<noteq> cA)"
proof -
  from assms obtain cA where cA: "i2c A = Some cA"
    by (auto simp: negative_for_pair_def split: option.splits)
  from assms cA have "\<exists>g1. retry_loop i2c cA (possible_ids_of S pool A P) n g = Inr (Some N, g1)"
    by (auto simp: negative_for_pair_def split: if_splits sum.splits option.splits prod.splits)
  then obtain g1 where "retry_loop i2c cA (possible_ids_of S pool A P) n g = Inr (Some N, g1)" ..
  from retry_loop_Some [OF this] cA show ?thesis by (auto simp: possible_ids_of_set)
qed

lemma build_negatives_loop_appended:
  "build_negatives_loop i2c S pool n pairs g = Inr (res, g') \<Longrightarrow>
   length res = length pairs
   \<and> (\<forall>k<length pairs. snd (res ! k) \<longrightarrow>
         fst (res ! k) \<in> set pool \<and> fst (res ! k) < length (S ! fst (pairs ! k))
         \<and> S ! fst (pairs ! k) ! fst (res ! k) + 0.25 > S ! fst (pairs ! k) ! snd (pairs ! k)
         \<and> (\<exists>cN cA. i2c (fst (res ! k)) = Some cN \<and> i2c (fst (pairs ! k)) = Some cA \<and> cN \<noteq> cA))"
proof (induction pairs arbitrary: g res)
  case Nil
  then show ?case by simp
next
  case (Cons pr rest)
  obtain A P where pr: "pr = (A, P)" by (cases pr)
  from Cons.prems pr obtain N b g1 res' where
    np: "negative_for_pair i2c S pool n A P g = Inr ((N, b), g1)"
    and rec: "build_negatives_loop i2c S pool n rest g1 = Inr (res', g')"
    and res: "res = (N, b) # res'"
    by (auto split: sum.splits prod.splits)
  note ih = Cons.IH [OF rec]
  have hd: "b \<longrightarrow> N \<in> set pool \<and> N < length (S ! A) \<and> S ! A ! N + 0.25 > S ! A ! P
              \<and> (\<exists>cN cA. i2c N = Some cN \<and> i2c A = Some cA \<and> cN \<noteq> cA)"
  proof
    assume b
    with np have "negative_for_pair i2c S pool n A P g = Inr ((N, True), g1)" by simp
    then show "N \<in> set pool \<and> N < length (S ! A) \<and> S ! A ! N + 0.25 > S ! A ! P
              \<and> (\<exists>cN cA. i2c N = Some cN \<and> i2c A = Some cA \<and> cN \<noteq> cA)"
      by (rule negative_for_pair_appended)
  qed
  show ?case
  proof (intro conjI allI impI)
    show "length res = length (pr # rest)" using ih res by simp
  next
    fix k assume "k < length (pr # rest)" and "snd (res ! k)"
    then show "fst (res ! k) \<in> set pool"
      and "fst (res ! k) < length (S ! fst ((pr # rest) ! k))"
      and "S ! fst ((pr # rest) ! k) ! fst (res ! k) + 0.25 > S ! fst ((pr # rest) ! k) ! snd ((pr # rest) ! k)"
      and "\<exists>cN cA. i2c (fst (res ! k)) = Some cN \<and> i2c (fst ((pr # rest) ! k)) = Some cA \<and> cN \<noteq> cA"
      using ih hd res pr by (cases k; simp)+
  qed
qed

lemma build_negatives_loop_each:
  "build_negatives_loop i2c S pool n pairs g = Inr (res, g') \<Longrightarrow> k < length pairs \<Longrightarrow>
   \<exists>gk gk'. negative_for_pair i2c S pool n (fst (pairs ! k)) (snd (pairs ! k)) gk = Inr (res ! k, gk')"
proof (induction pairs arbitrary: g res k)
  case Nil
  then show ?case by simp
next
  case (Cons pr rest)
  obtain A P where pr: "pr = (A, P)" by (cases pr)
  from Cons.prems(1) pr obtain neg g1 res' where
    np: "negative_for_pair i2c S pool n A P g = Inr (neg, g1)"
    and rec: "build_negatives_loop i2c S pool n rest g1 = Inr (res', g')"
    and res: "res = neg # res'"
    by (auto split: sum.splits prod.splits)
  show ?case
  proof (cases k)
    case 0
    with np pr res show ?thesis by auto
  next
    case (Suc k')
    then have "k' < length rest" using Cons.prems(2) by simp
    from Cons.IH [OF rec this] Suc res show ?thesis by simp
  qed
qed

lemma retry_loop_first:
  "possible \<noteq> [] \<Longrightarrow> i2c (draw possible g 0) = Some cj \<Longrightarrow> cj \<noteq> c \<Longrightarrow>
   retry_loop i2c c possible (Suc n) g = Inr (Some (draw possible g 0), rng_next g)"
  by (simp add: choice_ok)

lemma retry_loop_all_same:
  "possible \<noteq> [] \<Longrightarrow> \<forall>t<n. i2c (draw possible g t) = Some c \<Longrightarrow>
   retry_loop i2c c possible n g = Inr (None, (\<lambda>i. g (i + n)))"
proof (induction n arbitrary: g)
  case 0
  then show ?case by simp
next
  case (Suc n)
  have "\<forall>t<n. i2c (draw possible (rng_next g) t) = Some c"
    using Suc.prems(2) by (simp add: draw_rng_next)
  then have "retry_loop i2c c possible n (rng_next g) = Inr (None, (\<lambda>i. rng_next g (i + n)))"
    using Suc.IH [of "rng_next g"] Suc.prems(1) by blast
  moreover have "i2c (draw possible g 0) = Some c" using Suc.prems(2) by simp
  moreover have "(\<lambda>i. rng_next g (i + n)) = (\<lambda>i. g (i + Suc n))" by (simp add: rng_next_def)
  ultimately show ?case using Suc.prems(1) by (simp add: choice_ok)
qed

lemma negative_for_pair_cases:
  assumes cA: "i2c A = Some cA" and A: "A < length S" and P: "P < length (S ! A)"
    and dm: "set pool \<subseteq> dom i2c" and ne: "pool \<noteq> []"
    and possible: "possible = possible_ids_of S pool A P"
  shows "\<exists>N appended g'. negative_for_pair i2c S pool n A P g = Inr ((N, appended), g')
           \<and> (appended \<longrightarrow>
                 (\<exists>t<n. N = draw possible g t \<and> i2c N \<noteq> Some cA
                    \<and> (\<forall>u<t. i2c (draw possible g u) = Some cA)))
           \<and> (\<not> appended \<longrightarrow>
                 (possible = [] \<or> (\<forall>t<n. i2c (draw possible g t) = Some cA))
                 \<and> N = draw pool g (if possible = [] then 0 else n))"
proof (cases "possible = []")
  case True
  have "retry_loop i2c cA possible n g = Inr (None, g)" using True by (simp add: retry_loop_empty)
  then have "negative_for_pair i2c S pool n A P g = Inr ((draw pool g 0, False), rng_next g)"
    using cA A P ne possible by (simp add: negative_for_pair_def choice_ok)
  with True show ?thesis by (intro exI [of _ "draw pool g 0"] exI [of _ False] exI [of _ "rng_next g"]) simp
next
  case False
  have sub: "set possible \<subseteq> dom i2c" using dm possible by (auto simp: possible_ids_of_set)
  from retry_loop_cases [OF False sub, of n g cA] show ?thesis
  proof (elim disjE exE conjE)
    fix t assume t: "t < n" and d: "i2c (draw possible g t) \<noteq> Some cA"
      and b: "\<forall>u<t. i2c (draw possible g u) = Some cA"
      and r: "retry_loop i2c cA possible n g = Inr (Some (draw possible g t), (\<lambda>i. g (i + Suc t)))"
    have "negative_for_pair i2c S pool n A P g =
          Inr ((draw possible g t, True), (\<lambda>i. g (i + Suc t)))"
      using cA A P r possible by (simp add: negative_for_pair_def)
    with t d b show ?thesis by blast
  next
    assume a: "\<forall>t<n. i2c (draw possible g t) = Some cA"
      and r: "retry_loop i2c cA possible n g = Inr (None, (\<lambda>i. g (i + n)))"
    have "draw pool (\<lambda>i. g (i + n)) 0 = draw pool g n" by (simp add: draw_def)
    then have "negative_for_pair i2c S pool n A P g =
          Inr ((draw pool g n, False), rng_next (\<lambda>i. g (i + n)))"
      using cA A P r ne possible by (simp add: negative_for_pair_def choice_ok)
    with a False show ?thesis
      by (intro exI [of _ "draw pool g n"] exI [of _ False] exI [of _ "rng_next (\<lambda>i. g (i + n))"]) simp
  qed
qed




lemma acceptable_possible:
  "acceptable i2c S pool A P N \<longleftrightarrow> N \<in> set (possible_ids_of S pool A P) \<and> i2c N \<noteq> i2c A"
  by (auto simp: acceptable_def possible_ids_of_set)


section \<open>Properties of recall at k\<close>

lemma lookup_all_err: "lookup_all m xs = Inl e \<Longrightarrow> e = KeyError"
  by (induction xs arbitrary: e) (auto split: option.splits sum.splits)

lemma lookup_all_ok: "\<forall>x \<in> set xs. x \<in> dom m \<Longrightarrow> \<exists>cs. lookup_all m xs = Inr cs"
  by (induction xs) auto

lemma most_sim_err:
  "most_sim emb pixelwise idx topn mode = Inl e \<Longrightarrow> e = IndexError \<or> e = FloatingPointError"
  by (auto simp: most_sim_def Let_def split: if_splits)

lemma sample_err: "sample xs k g = Inl e \<Longrightarrow> e = ValueError"
  by (auto simp: sample_def split: if_splits)

lemma found_classes_of_err:
  assumes "found_classes_of i2c emb pixelwise te tr k mode q g = Inl e"
  shows "e \<noteq> ZeroDivisionError"
proof -
  have "e = IndexError \<or> e = FloatingPointError \<or> e = KeyError \<or> e = ValueError"
    using assms
    by (auto simp: found_classes_of_def split: if_splits sum.splits prod.splits
        dest: most_sim_err lookup_all_err sample_err)
  then show ?thesis by auto
qed

lemma recall_loop_err:
  "recall_loop i2c emb pixelwise te tr k mode ids num_found g = Inl e \<Longrightarrow> e \<noteq> ZeroDivisionError"
proof (induction ids arbitrary: num_found g)
  case Nil
  then show ?case by simp
next
  case (Cons q rest)
  show ?case
  proof (cases "i2c q")
    case None
    with Cons.prems show ?thesis by auto
  next
    case (Some c)
    show ?thesis
    proof (cases "found_classes_of i2c emb pixelwise te tr k mode q g")
      case (Inl e')
      with Cons.prems Some have "e = e'" by simp
      with Inl show ?thesis using found_classes_of_err by blast
    next
      case (Inr r)
      obtain fc g1 where r: "r = (fc, g1)" by (cases r)
      from Cons.prems Some Inr r
      have "recall_loop i2c emb pixelwise te tr k mode rest
              (if c \<in> set fc then num_found + 1 else num_found) g1 = Inl e" by simp
      then show ?thesis by (rule Cons.IH)
    qed
  qed
qed

lemma recall_loop_bound:
  "recall_loop i2c emb pixelwise te tr k mode ids num_found g = Inr (n, g') \<Longrightarrow>
   num_found \<le> n \<and> n \<le> num_found + length ids"
proof (induction ids arbitrary: num_found g)
  case Nil
  then show ?case by simp
next
  case (Cons q rest)
  from Cons.prems obtain c where c: "i2c q = Some c" by (auto split: option.splits)
  from Cons.prems c obtain fc g1 where
    fc: "found_classes_of i2c emb pixelwise te tr k mode q g = Inr (fc, g1)"
    by (auto split: sum.splits)
  let ?m = "if c \<in> set fc then num_found + 1 else num_found"
  from Cons.prems c fc
  have "recall_loop i2c emb pixelwise te tr k mode rest ?m g1 = Inr (n, g')" by simp
  from Cons.IH [OF this] have "?m \<le> n \<and> n \<le> ?m + length rest" .
  then show ?case by (auto split: if_splits)
qed

lemma test_ids_loop_nonempty:
  "test_ids_loop c2i cs acc = Inr t \<Longrightarrow>
   acc \<noteq> [] \<or> (\<exists>c \<in> set cs. \<exists>is. c2i c = Some is \<and> 1 < length is) \<Longrightarrow> t \<noteq> []"
proof (induction cs arbitrary: acc)
  case Nil
  then show ?case by simp
next
  case (Cons c cs)
  from Cons.prems(1) obtain img_ids where ci: "c2i c = Some img_ids"
    and rec: "test_ids_loop c2i cs (if length img_ids > 1 then acc @ img_ids else acc) = Inr t"
    by (auto split: option.splits)
  have "(if length img_ids > 1 then acc @ img_ids else acc) \<noteq> []
        \<or> (\<exists>c \<in> set cs. \<exists>is. c2i c = Some is \<and> 1 < length is)"
    using Cons.prems(2) ci by auto
  with rec show ?case by (rule Cons.IH)
qed

lemma most_sim_cosine_returns:
  assumes "idx < length emb" and "linalg_norm (emb ! idx) \<noteq> 0"
  shows "\<exists>res. most_sim emb pixelwise idx topn ''cosine'' = Inr res
           \<and> (\<forall>p \<in> set res. fst p < length emb)"
proof -
  let ?sims = "cosine_sims emb (emb ! idx)"
  let ?ids = "slice_to topn (rev (argsort ?sims))"
  have "set ?ids \<subseteq> set (rev (argsort ?sims))" by (rule slice_to_set)
  then have "\<forall>i \<in> set ?ids. i < length emb"
    by (auto simp: argsort_set cosine_sims_def)
  then have "\<forall>p \<in> set (scored ?sims ?ids). fst p < length emb"
    by (auto simp: scored_def)
  moreover have "most_sim emb pixelwise idx topn ''cosine'' = Inr (scored ?sims ?ids)"
    using assms by (simp add: most_sim_def Let_def)
  ultimately show ?thesis by blast
qed

lemma found_classes_of_embedding_returns:
  assumes "q < length emb" and "linalg_norm (emb ! q) \<noteq> 0" and "\<forall>i < length emb. i \<in> dom i2c"
  shows "\<exists>fc. found_classes_of i2c emb pixelwise te tr k ''embedding'' q g = Inr (fc, g)"
proof -
  obtain res where ms: "most_sim emb pixelwise q (k + 1) ''cosine'' = Inr res"
    and rg: "\<forall>p \<in> set res. fst p < length emb"
    using most_sim_cosine_returns [OF assms(1,2)] by blast
  have "set (drop 1 res) \<subseteq> set res" by (rule set_drop_subset)
  then have "\<forall>x \<in> set (map fst (drop 1 res)). x \<in> dom i2c" using rg assms(3) by auto
  then obtain cs where "lookup_all i2c (map fst (drop 1 res)) = Inr cs"
    using lookup_all_ok by blast
  with ms show ?thesis by (simp add: found_classes_of_def)
qed

lemma recall_loop_embedding_returns:
  assumes "\<forall>i < length emb. i \<in> dom i2c"
  shows "\<forall>q \<in> set ids. q < length emb \<and> linalg_norm (emb ! q) \<noteq> 0 \<Longrightarrow>
         \<exists>n g'. recall_loop i2c emb pixelwise te tr k ''embedding'' ids num_found g = Inr (n, g')"
proof (induction ids arbitrary: num_found g)
  case Nil
  then show ?case by simp
next
  case (Cons q rest)
  have q: "q < length emb" "linalg_norm (emb ! q) \<noteq> 0" using Cons.prems by simp_all
  then obtain c where c: "i2c q = Some c" using assms by blast
  obtain fc where fc: "found_classes_of i2c emb pixelwise te tr k ''embedding'' q g = Inr (fc, g)"
    using found_classes_of_embedding_returns [OF q assms] by blast
  have "\<forall>q \<in> set rest. q < length emb \<and> linalg_norm (emb ! q) \<noteq> 0" using Cons.prems by simp
  from Cons.IH [OF this, of "if c \<in> set fc then num_found + 1 else num_found" g]
  show ?case using c fc by simp
qed


lemma lookup_all_map:
  "\<forall>x \<in> set xs. x \<in> dom m \<Longrightarrow> lookup_all m xs = Inr (map (\<lambda>x. the (m x)) xs)"
  by (induction xs) auto

lemma found_classes_of_ranked_first:
  assumes q: "q < length emb" and nz: "linalg_norm (emb ! q) \<noteq> 0"
    and first: "hd (rev (argsort (cosine_sims emb (emb ! q)))) = q"
    and dm: "\<forall>i < length emb. i \<in> dom i2c" and k: "0 \<le> k"
  shows "found_classes_of i2c emb pixelwise te tr k ''embedding'' q g =
           Inr (map (\<lambda>x. the (i2c x)) (retrieved_topk emb q (nat k)), g)
         \<and> set (retrieved_topk emb q (nat k)) \<subseteq> dom i2c"
proof -
  let ?sims = "cosine_sims emb (emb ! q)"
  let ?r = "rev (argsort ?sims)"
  have len: "length ?sims = length emb" by (simp add: cosine_sims_def)
  have st: "set ?r = {0..<length emb}" by (simp add: argsort_set len)
  have dr: "distinct ?r" by (simp add: argsort_distinct)
  have "?r \<noteq> []" using st q by auto
  then obtain t where r: "?r = q # t" using first by (cases ?r) auto
  have qt: "q \<notin> set t" using dr r by (metis distinct.simps(2))
  have ft: "filter (\<lambda>i. i \<noteq> q) t = t" using qt by (induction t) auto
  have ret: "retrieved_topk emb q (nat k) = take (nat k) t"
    by (simp add: retrieved_topk_def r ft)
  have sub: "set (take (nat k) t) \<subseteq> dom i2c"
  proof
    fix x assume "x \<in> set (take (nat k) t)"
    then have "x \<in> set ?r" using r by (auto dest: in_set_takeD)
    then have "x < length emb" using st by simp
    then show "x \<in> dom i2c" using dm by simp
  qed
  have nk: "nat (k + 1) = Suc (nat k)" using k by simp
  have ms: "most_sim emb pixelwise q (k + 1) ''cosine'' =
            Inr ((q, ?sims ! q) # scored ?sims (take (nat k) t))"
    using q nz k by (simp add: most_sim_def Let_def slice_to_def r nk scored_def)
  have mf: "map fst (scored ?sims (take (nat k) t)) = take (nat k) t"
    by (simp add: scored_def comp_def)
  have la: "lookup_all i2c (take (nat k) t) = Inr (map (\<lambda>x. the (i2c x)) (take (nat k) t))"
    using sub by (intro lookup_all_map) auto
  have "found_classes_of i2c emb pixelwise te tr k ''embedding'' q g =
        Inr (map (\<lambda>x. the (i2c x)) (take (nat k) t), g)"
    by (simp add: found_classes_of_def ms mf la)
  with ret sub show ?thesis by simp
qed

lemma recall_loop_ranked_first:
  assumes dm: "\<forall>i < length emb. i \<in> dom i2c" and k: "0 \<le> k"
  shows "\<forall>q \<in> set ids. q < length emb \<and> linalg_norm (emb ! q) \<noteq> 0
            \<and> hd (rev (argsort (cosine_sims emb (emb ! q)))) = q \<Longrightarrow>
         recall_loop i2c emb pixelwise te tr k ''embedding'' ids num_found g =
           Inr (num_found
                + length (filter (\<lambda>q. \<exists>x \<in> set (retrieved_topk emb q (nat k)). i2c x = i2c q) ids), g)"
proof (induction ids arbitrary: num_found)
  case Nil
  then show ?case by simp
next
  case (Cons q rest)
  have q: "q < length emb" "linalg_norm (emb ! q) \<noteq> 0"
    "hd (rev (argsort (cosine_sims emb (emb ! q)))) = q" using Cons.prems by simp_all
  obtain c where c: "i2c q = Some c" using q(1) dm by blast
  let ?ret = "retrieved_topk emb q (nat k)"
  have fc: "found_classes_of i2c emb pixelwise te tr k ''embedding'' q g =
              Inr (map (\<lambda>x. the (i2c x)) ?ret, g)"
    and sub: "set ?ret \<subseteq> dom i2c"
    using found_classes_of_ranked_first [OF q dm k] by blast+
  have iff: "c \<in> set (map (\<lambda>x. the (i2c x)) ?ret) \<longleftrightarrow> (\<exists>x \<in> set ?ret. i2c x = i2c q)"
  proof
    assume "c \<in> set (map (\<lambda>x. the (i2c x)) ?ret)"
    then obtain x where x: "x \<in> set ?ret" and e: "c = the (i2c x)" by auto
    from x sub obtain y where "i2c x = Some y" by blast
    with e c x show "\<exists>x \<in> set ?ret. i2c x = i2c q" by auto
  next
    assume "\<exists>x \<in> set ?ret. i2c x = i2c q"
    then obtain x where x: "x \<in> set ?ret" and e: "i2c x = i2c q" by blast
    then have "the (i2c x) = c" using c by simp
    with x show "c \<in> set (map (\<lambda>x. the (i2c x)) ?ret)" by force
  qed
  have rest: "\<forall>q \<in> set rest. q < length emb \<and> linalg_norm (emb ! q) \<noteq> 0
                \<and> hd (rev (argsort (cosine_sims emb (emb ! q)))) = q"
    using Cons.prems by simp
  show ?case using c fc iff Cons.IH [OF rest] by simp
qed

lemma recall_k_ranked_first:
  assumes "test_ids \<noteq> []"
    and "\<forall>q \<in> set test_ids. q < length emb \<and> linalg_norm (emb ! q) \<noteq> 0
            \<and> hd (rev (argsort (cosine_sims emb (emb ! q)))) = q"
    and "\<forall>i < length emb. i \<in> dom i2c" and "0 \<le> k"
  shows "recall_k i2c emb pixelwise test_ids te tr k ''embedding'' g =
           Inr (recall_k_spec i2c emb test_ids (nat k), g)"
  using assms(1) recall_loop_ranked_first [OF assms(3,4,2), of pixelwise te tr 0 g]
  by (simp add: recall_k_def recall_k_spec_def)

section \<open>Properties of the triplet generator\<close>

lemma slice_nth:
  assumes "low \<le> high" and "high \<le> length xs"
  shows "slice low high xs = map ((!) xs) [low..<high]"
proof (rule nth_equalityI)
  show "length (slice low high xs) = length (map ((!) xs) [low..<high])"
    using assms by (simp add: slice_def)
next
  fix i assume "i < length (slice low high xs)"
  then have i: "i < high - low" by (simp add: slice_def)
  then show "slice low high xs ! i = map ((!) xs) [low..<high] ! i"
    using assms by (simp add: slice_def)
qed

lemma index_all_ok:
  "\<forall>i \<in> set ids. i < length xs \<Longrightarrow> index_all xs ids = Inr (map ((!) xs) ids)"
  by (auto simp: index_all_def)

lemma batch_bound:
  assumes "0 < (b::nat)" and "i < n div b"
  shows "(i + 1) * b \<le> n - n mod b"
proof -
  have "i + 1 \<le> n div b" using assms(2) by simp
  then have "(i + 1) * b \<le> (n div b) * b" by (rule mult_le_mono1)
  also have "\<dots> = n - n mod b" by (simp add: minus_mod_eq_div_mult)
  finally show ?thesis .
qed


section \<open>Claims\<close>

text \<open>
  C6. For every class id, \<open>build_pos_pairs_for_id\<close> returns the empty list when the class
  has exactly one image; otherwise it returns at most \<open>max_num\<close> pairs, each made of two
  distinct image ids that both belong to that class: the first \<open>max_num\<close> pairs of a
  shuffle of all 2-combinations of the class's images. The class is a key of
  \<open>classid_to_ids\<close>, its image ids are pairwise distinct (they are positions in the list
  of all image paths), and \<open>max_num\<close> is a count.
\<close>

theorem build_pos_pairs_for_id_ok:
  assumes "classid_to_ids classid = Some ims" and "distinct ims" and "0 \<le> max_num"
  shows "\<exists>pairs g'. build_pos_pairs_for_id classid_to_ids classid max_num g = Inr (pairs, g')
           \<and> (length ims = 1 \<longrightarrow> pairs = [])
           \<and> int (length pairs) \<le> max_num
           \<and> (\<exists>shuffled. mset shuffled = mset (combinations2 ims)
                  \<and> pairs = take (nat max_num) shuffled)
           \<and> (\<forall>(a, b) \<in> set pairs. a \<noteq> b \<and> a \<in> set ims \<and> b \<in> set ims)"
proof (cases "length ims = 1")
  case True
  then obtain x where "ims = [x]" by (cases ims) auto
  then have "mset [] = mset (combinations2 ims) \<and> [] = take (nat max_num) []" by simp
  then have "\<exists>shuffled. mset shuffled = mset (combinations2 ims)
               \<and> ([] :: (nat \<times> nat) list) = take (nat max_num) shuffled"
    by blast
  with assms True show ?thesis by (simp add: build_pos_pairs_for_id_def)
next
  case False
  obtain ps g' where sh: "shuffle (combinations2 ims) g = (ps, g')"
    by (cases "shuffle (combinations2 ims) g")
  have pm: "mset ps = mset (combinations2 ims)"
    using shuffle_mset [of "combinations2 ims" g] sh by simp
  then have ps: "set ps = set (combinations2 ims)" by (rule mset_eq_setD)
  have res: "build_pos_pairs_for_id classid_to_ids classid max_num g = Inr (slice_to max_num ps, g')"
    using assms(1) False sh by (simp add: build_pos_pairs_for_id_def)
  have tk: "slice_to max_num ps = take (nat max_num) ps" using assms(3) by (simp add: slice_to_def)
  have sub: "set (slice_to max_num ps) \<subseteq> set (combinations2 ims)"
    using slice_to_set [of max_num ps] ps by simp
  have len: "int (length (slice_to max_num ps)) \<le> max_num"
    using assms(3) by (simp add: slice_to_length)
  have each: "\<forall>(a, b) \<in> set (slice_to max_num ps). a \<noteq> b \<and> a \<in> set ims \<and> b \<in> set ims"
    using sub combinations2_set [of ims] combinations2_distinct [OF assms(2)] by blast
  have perm: "\<exists>shuffled. mset shuffled = mset (combinations2 ims)
                \<and> slice_to max_num ps = take (nat max_num) shuffled"
    using pm tk by blast
  show ?thesis using res False len each perm by simp
qed

theorem build_pos_pairs_for_id_ok_witness:
  "[0 \<mapsto> [0, 1, 2]] (0::nat) = Some [0, 1, 2::nat] \<and> distinct [0, 1, 2::nat] \<and> (0::int) \<le> 2
   \<and> (\<exists>pairs g'. build_pos_pairs_for_id [0 \<mapsto> [0, 1, 2]] 0 2 (\<lambda>_. 0) = Inr (pairs, g')
         \<and> int (length pairs) \<le> 2
         \<and> (\<forall>(a, b) \<in> set pairs. a \<noteq> b \<and> a \<in> set [0, 1, 2] \<and> b \<in> set [0, 1, 2]))"
proof -
  have h1: "[0 \<mapsto> [0, 1, 2]] (0::nat) = Some [0, 1, 2::nat]" by simp
  have h2: "distinct [0, 1, 2::nat]" by simp
  have h3: "(0::int) \<le> 2" by simp
  from build_pos_pairs_for_id_ok [of "[0 \<mapsto> [0, 1, 2]]" 0 "[0, 1, 2]" 2 "\<lambda>_. 0"] h1 h2 h3
  show ?thesis by blast
qed

text \<open>
  C7. For every class id and every pool of pairwise different classes that holds at least
  \<open>max_num + 1\<close> of them, \<open>build_neg_pairs_for_id\<close> returns exactly \<open>max_num\<close> pairs; the
  first image of each pair belongs to the given class and the second belongs to a class of
  the pool other than the given class. Every class concerned is a key of
  \<open>classid_to_ids\<close> with at least one image, as every directory of the dataset has.
\<close>

theorem build_neg_pairs_for_id_ok:
  assumes "classid_to_ids classid = Some ims" and "ims \<noteq> []"
    and "0 \<le> max_num" and "max_num + 1 \<le> int (length classes)"
    and "distinct classes"
    and "\<forall>c \<in> set classes. \<exists>is. classid_to_ids c = Some is \<and> is \<noteq> []"
  shows "\<exists>pairs g'. build_neg_pairs_for_id classid_to_ids classid classes max_num g = Inr (pairs, g')
           \<and> int (length pairs) = max_num
           \<and> (\<forall>(a, b) \<in> set pairs. a \<in> set ims
                 \<and> (\<exists>c \<in> set classes. c \<noteq> classid
                       \<and> (\<exists>is. classid_to_ids c = Some is \<and> b \<in> set is)))"
proof -
  have k0: "0 \<le> max_num + 1" using assms(3) by simp
  obtain s g1 where sm: "sample classes (max_num + 1) g = Inr (s, g1)"
    and sl: "length s = nat (max_num + 1)" and ss: "set s \<subseteq> set classes" and sd: "distinct s"
    using sample_ok [OF k0 assms(4), of g] assms(5) by blast
  let ?neg = "if classid \<in> set s then remove1 classid s else s"
  have nset: "set ?neg \<subseteq> set classes - {classid}" using ss sd by auto
  have nlen: "nat max_num \<le> length ?neg" using sl assms(3) by (auto simp: length_remove1)
  have idx: "\<forall>i \<in> set [0..<nat max_num]. i < length ?neg" using nlen by auto
  have cls: "\<forall>c \<in> set ?neg. \<exists>is. classid_to_ids c = Some is \<and> is \<noteq> []"
    using nset assms(6) by blast
  obtain ps g' where lp: "neg_pairs_loop classid_to_ids ims ?neg [0..<nat max_num] g1 = Inr (ps, g')"
    and len: "length ps = length [0..<nat max_num]"
    and each: "\<forall>(a, b) \<in> set ps. a \<in> set ims
                 \<and> (\<exists>c \<in> set ?neg. \<exists>is. classid_to_ids c = Some is \<and> b \<in> set is)"
    using neg_pairs_loop_ok [OF assms(2) idx cls, of g1] by blast
  have res: "build_neg_pairs_for_id classid_to_ids classid classes max_num g = Inr (ps, g')"
    using assms(1) sm lp by (simp add: build_neg_pairs_for_id_def)
  have l: "int (length ps) = max_num" using len assms(3) by simp
  have e: "\<forall>(a, b) \<in> set ps. a \<in> set ims
             \<and> (\<exists>c \<in> set classes. c \<noteq> classid
                   \<and> (\<exists>is. classid_to_ids c = Some is \<and> b \<in> set is))"
    using each nset by blast
  show ?thesis using res l e by blast
qed

theorem build_neg_pairs_for_id_ok_witness:
  "[0 \<mapsto> [0, 1], 1 \<mapsto> [2], 2 \<mapsto> [3, 4]] (0::nat) = Some [0, 1::nat] \<and> [0, 1::nat] \<noteq> []
   \<and> (0::int) \<le> 2 \<and> (2::int) + 1 \<le> int (length [0, 1, 2::nat]) \<and> distinct [0, 1, 2::nat]
   \<and> (\<exists>pairs g'. build_neg_pairs_for_id [0 \<mapsto> [0, 1], 1 \<mapsto> [2], 2 \<mapsto> [3, 4]] 0 [0, 1, 2] 2
                    (\<lambda>i. i) = Inr (pairs, g')
         \<and> int (length pairs) = 2
         \<and> (\<forall>(a, b) \<in> set pairs. a \<in> set [0, 1] \<and> b \<in> set [2, 3, 4]))"
proof -
  let ?m = "[0 \<mapsto> [0, 1], 1 \<mapsto> [2], 2 \<mapsto> [3, 4::nat]] :: nat \<rightharpoonup> nat list"
  have h1: "?m 0 = Some [0, 1]" by simp
  have h2: "[0, 1::nat] \<noteq> []" by simp
  have h3: "(0::int) \<le> 2" by simp
  have h4: "(2::int) + 1 \<le> int (length [0, 1, 2::nat])" by simp
  have h5: "distinct [0, 1, 2::nat]" by simp
  have h6: "\<forall>c \<in> set [0, 1, 2::nat]. \<exists>is. ?m c = Some is \<and> is \<noteq> []" by simp
  obtain pairs g' where r: "build_neg_pairs_for_id ?m 0 [0, 1, 2] 2 (\<lambda>i. i) = Inr (pairs, g')"
    and l: "int (length pairs) = 2"
    and e: "\<forall>(a, b) \<in> set pairs. a \<in> set [0, 1::nat]
              \<and> (\<exists>c \<in> set [0, 1, 2::nat]. c \<noteq> 0 \<and> (\<exists>is. ?m c = Some is \<and> b \<in> set is))"
    using build_neg_pairs_for_id_ok [of ?m 0 "[0, 1]" 2 "[0, 1, 2]" "\<lambda>i. i"] h1 h2 h3 h4 h5 h6
    by blast
  have "\<forall>(a, b) \<in> set pairs. a \<in> set [0, 1::nat] \<and> b \<in> set [2, 3, 4::nat]"
    using e by fastforce
  with r l h1 h2 h3 h4 h5 show ?thesis by blast
qed

text \<open>
  C4. For every query and every \<open>topn\<close> between 0 and the number of stored embeddings,
  \<open>most_sim\<close> returns exactly \<open>topn\<close> (index, score) pairs. In the mode \<open>cosine\<close>, for a
  query whose embedding is not the zero vector, the scores are the dot products with the
  query's normalised embedding, the listed indices have the largest ones and are listed
  in non-increasing order. In the mode \<open>euclidean\<close> the scores are the Euclidean
  distances to the query's embedding, the listed indices have the smallest ones and are
  listed in non-decreasing order. \<open>most_similar\<close> does the same with the distances to the
  new embedding and returns the image of each index.
\<close>

theorem most_sim_topn:
  assumes "idx < length emb" and "0 \<le> topn" and "topn \<le> int (length emb)"
  shows "(linalg_norm (emb ! idx) \<noteq> 0 \<longrightarrow>
            (\<exists>res. most_sim emb pixelwise idx topn ''cosine'' = Inr res
               \<and> top_by (\<ge>) (cosine_sims emb (emb ! idx)) (nat topn) res
               \<and> (\<forall>(i, s) \<in> set res. s = dot (emb ! i) (l2_normalize (emb ! idx)))))
       \<and> (\<exists>res. most_sim emb pixelwise idx topn ''euclidean'' = Inr res
               \<and> top_by (\<le>) (euclidean_dists emb (emb ! idx)) (nat topn) res
               \<and> (\<forall>(i, s) \<in> set res. s = linalg_norm (vsub (emb ! i) (emb ! idx))))
       \<and> (topn \<le> int (length all_embeddings) \<longrightarrow> length all_embeddings \<le> length negative_images \<longrightarrow>
            (\<exists>res. most_similar predict all_embeddings negative_images img topn =
                      Inr (map (\<lambda>(i, d). (negative_images ! i, d)) res)
               \<and> top_by (\<le>) (euclidean_dists all_embeddings (predict img)) (nat topn) res
               \<and> (\<forall>(i, s) \<in> set res. s = linalg_norm (vsub (all_embeddings ! i) (predict img)))))"
proof (intro conjI impI)
  assume nz: "linalg_norm (emb ! idx) \<noteq> 0"
  let ?sims = "cosine_sims emb (emb ! idx)"
  let ?res = "scored ?sims (take (nat topn) (rev (argsort ?sims)))"
  have len: "length ?sims = length emb" by (simp add: cosine_sims_def)
  have n: "nat topn \<le> length ?sims" using assms len by linarith
  have top: "top_by (\<ge>) ?sims (nat topn) ?res" using n by (rule top_by_argsort_rev)
  have eq: "most_sim emb pixelwise idx topn ''cosine'' = Inr ?res"
    using assms nz by (simp add: most_sim_def Let_def slice_to_nonneg)
  have "\<forall>(i, s) \<in> set ?res. i < length emb \<and> s = ?sims ! i"
    using top len unfolding top_by_def by simp
  then have sc: "\<forall>(i, s) \<in> set ?res. s = dot (emb ! i) (l2_normalize (emb ! idx))"
    by (auto simp: cosine_sims_def)
  show "\<exists>res. most_sim emb pixelwise idx topn ''cosine'' = Inr res
          \<and> top_by (\<ge>) ?sims (nat topn) res
          \<and> (\<forall>(i, s) \<in> set res. s = dot (emb ! i) (l2_normalize (emb ! idx)))"
    using eq top sc by blast
next
  let ?dists = "euclidean_dists emb (emb ! idx)"
  let ?res = "scored ?dists (take (nat topn) (argsort ?dists))"
  have len: "length ?dists = length emb" by (simp add: euclidean_dists_def)
  have n: "nat topn \<le> length ?dists" using assms len by linarith
  have top: "top_by (\<le>) ?dists (nat topn) ?res" using n by (rule top_by_argsort)
  have eq: "most_sim emb pixelwise idx topn ''euclidean'' = Inr ?res"
    using assms by (simp add: most_sim_def Let_def slice_to_nonneg)
  have "\<forall>(i, s) \<in> set ?res. i < length emb \<and> s = ?dists ! i"
    using top len unfolding top_by_def by simp
  then have sc: "\<forall>(i, s) \<in> set ?res. s = linalg_norm (vsub (emb ! i) (emb ! idx))"
    by (auto simp: euclidean_dists_def)
  show "\<exists>res. most_sim emb pixelwise idx topn ''euclidean'' = Inr res
          \<and> top_by (\<le>) ?dists (nat topn) res
          \<and> (\<forall>(i, s) \<in> set res. s = linalg_norm (vsub (emb ! i) (emb ! idx)))"
    using eq top sc by blast
next
  assume tn: "topn \<le> int (length all_embeddings)"
    and ni: "length all_embeddings \<le> length negative_images"
  let ?dists = "euclidean_dists all_embeddings (predict img)"
  let ?idxs = "take (nat topn) (argsort ?dists)"
  let ?res = "scored ?dists ?idxs"
  have len: "length ?dists = length all_embeddings" by (simp add: euclidean_dists_def)
  have n: "nat topn \<le> length ?dists" using tn len by linarith
  have top: "top_by (\<le>) ?dists (nat topn) ?res" using n by (rule top_by_argsort)
  have "set ?idxs \<subseteq> set (argsort ?dists)" by (rule set_take_subset)
  then have inr: "\<forall>i \<in> set ?idxs. i < length negative_images"
    using ni len by (auto simp: argsort_set)
  have eq: "most_similar predict all_embeddings negative_images img topn =
            Inr (map (\<lambda>(i, d). (negative_images ! i, d)) ?res)"
    using assms(2) inr by (auto simp: most_similar_def Let_def slice_to_nonneg scored_def)
  have "\<forall>(i, s) \<in> set ?res. i < length all_embeddings \<and> s = ?dists ! i"
    using top len unfolding top_by_def by simp
  then have sc: "\<forall>(i, s) \<in> set ?res. s = linalg_norm (vsub (all_embeddings ! i) (predict img))"
    by (auto simp: euclidean_dists_def)
  show "\<exists>res. most_similar predict all_embeddings negative_images img topn =
                 Inr (map (\<lambda>(i, d). (negative_images ! i, d)) res)
          \<and> top_by (\<le>) ?dists (nat topn) res
          \<and> (\<forall>(i, s) \<in> set res. s = linalg_norm (vsub (all_embeddings ! i) (predict img)))"
    using eq top sc by blast
qed

theorem most_sim_topn_witness:
  "(0::nat) < length [[1, 0], [0, 1], [3/5, 4/5 :: real]] \<and> (0::int) \<le> 2
   \<and> (2::int) \<le> int (length [[1, 0], [0, 1], [3/5, 4/5 :: real]])
   \<and> linalg_norm ([[1, 0], [0, 1], [3/5, 4/5]] ! 0) \<noteq> 0
   \<and> most_sim [[1, 0], [0, 1], [3/5, 4/5]] [] 0 2 ''cosine'' = Inr [(0, 1), (2, 3/5)]
   \<and> top_by (\<ge>) (cosine_sims [[1, 0], [0, 1], [3/5, 4/5]] [1, 0]) 2 [(0, 1), (2, 3/5)]
   \<and> (\<exists>res. most_sim [[1, 0], [0, 1], [3/5, 4/5]] [] 0 2 ''euclidean'' = Inr res
          \<and> top_by (\<le>) (euclidean_dists [[1, 0], [0, 1], [3/5, 4/5]] [1, 0]) 2 res)
   \<and> length [[1, 0], [0, 1], [3/5, 4/5 :: real]] \<le> length [''a'', ''b'', ''c'']
   \<and> (\<exists>res. most_similar (\<lambda>p. [1, 0]) [[1, 0], [0, 1], [3/5, 4/5]] [''a'', ''b'', ''c''] ''q'' 2 =
                 Inr (map (\<lambda>(i, d). ([''a'', ''b'', ''c''] ! i, d)) res)
          \<and> top_by (\<le>) (euclidean_dists [[1, 0], [0, 1], [3/5, 4/5]] [1, 0]) 2 res)"
proof -
  let ?E = "[[1, 0], [0, 1], [3/5, 4/5 :: real]]"
  have h1: "(0::nat) < length ?E" by simp
  have h2: "(0::int) \<le> 2" by simp
  have h3: "(2::int) \<le> int (length ?E)" by simp
  have n1: "linalg_norm [1, 0] = 1" by (simp add: linalg_norm_def)
  have h4: "linalg_norm (?E ! 0) \<noteq> 0" using n1 by simp
  have h5: "length ?E \<le> length [''a'', ''b'', ''c'']" by simp
  have ev: "most_sim ?E [] 0 2 ''cosine'' = Inr [(0, 1), (2, 3/5)]"
    by (simp add: most_sim_def cosine_sims_def l2_normalize_def dot_def n1 argsort_def upt_rec
        slice_to_def scored_def)
  note th = most_sim_topn [where idx = 0 and emb = ?E and topn = 2 and pixelwise = "[]"
      and all_embeddings = ?E and negative_images = "[''a'', ''b'', ''c'']"
      and predict = "\<lambda>p. [1, 0]" and img = "''q''", OF h1 h2 h3]
  from th h4 ev have c: "top_by (\<ge>) (cosine_sims ?E [1, 0]) 2 [(0, 1), (2, 3/5)]" by auto
  from th have e: "\<exists>res. most_sim ?E [] 0 2 ''euclidean'' = Inr res
                     \<and> top_by (\<le>) (euclidean_dists ?E [1, 0]) 2 res" by auto
  from th h3 h5 have m: "\<exists>res. most_similar (\<lambda>p. [1, 0]) ?E [''a'', ''b'', ''c''] ''q'' 2 =
                 Inr (map (\<lambda>(i, d). ([''a'', ''b'', ''c''] ! i, d)) res)
          \<and> top_by (\<le>) (euclidean_dists ?E [1, 0]) 2 res" by auto
  show ?thesis using h1 h2 h3 h4 h5 ev c e m by blast
qed



text \<open>
  C1. For every anchor/positive pair \<open>(A, P)\<close>, every negative \<open>N\<close> that \<open>build_negatives\<close>
  selects through its mining branch (\<open>appended\<close> is \<open>True\<close>) is a member of the negative
  pool, is an index of the similarity matrix with \<open>S[A,N] + 0.25 > S[A,P]\<close>, and has a class
  different from the anchor's class.
\<close>

theorem build_negatives_mined:
  assumes "build_negatives_appended i2c anc_idxs pos_idxs (Some S) pool num_retries g = Inr (res, g')"
    and "k < length res" and "snd (res ! k)"
  shows "build_negatives i2c anc_idxs pos_idxs (Some S) pool num_retries g = Inr (map fst res, g')
       \<and> k < length anc_idxs \<and> k < length pos_idxs
       \<and> fst (res ! k) \<in> set pool \<and> fst (res ! k) < length (S ! (anc_idxs ! k))
       \<and> S ! (anc_idxs ! k) ! fst (res ! k) + 0.25 > S ! (anc_idxs ! k) ! (pos_idxs ! k)
       \<and> (\<exists>cN cA. i2c (fst (res ! k)) = Some cN \<and> i2c (anc_idxs ! k) = Some cA \<and> cN \<noteq> cA)"
proof -
  let ?pairs = "zip anc_idxs pos_idxs"
  have lp: "build_negatives_loop i2c S pool num_retries ?pairs g = Inr (res, g')"
    using assms(1) by (simp add: build_negatives_appended_def)
  note l = build_negatives_loop_appended [OF lp]
  then have len: "length res = length ?pairs" by simp
  with assms(2) have k: "k < length anc_idxs" "k < length pos_idxs" by simp_all
  then have pk: "?pairs ! k = (anc_idxs ! k, pos_idxs ! k)" by simp
  have "build_negatives i2c anc_idxs pos_idxs (Some S) pool num_retries g = Inr (map fst res, g')"
    using assms(1) by (simp add: build_negatives_def)
  moreover have "fst (res ! k) \<in> set pool \<and> fst (res ! k) < length (S ! (anc_idxs ! k))
       \<and> S ! (anc_idxs ! k) ! fst (res ! k) + 0.25 > S ! (anc_idxs ! k) ! (pos_idxs ! k)
       \<and> (\<exists>cN cA. i2c (fst (res ! k)) = Some cN \<and> i2c (anc_idxs ! k) = Some cA \<and> cN \<noteq> cA)"
    using l assms(2,3) len pk by (metis fst_conv snd_conv)
  ultimately show ?thesis using k by blast
qed

theorem build_negatives_mined_witness:
  "build_negatives_appended [0 \<mapsto> 0, 1 \<mapsto> 0, 2 \<mapsto> 1] [0] [1]
      (Some [[1, 9/10, 8/10], [9/10, 1, 1/2], [8/10, 1/2, 1]]) [0, 1, 2] 20 (\<lambda>_. 2)
    = Inr ([(2, True)], (\<lambda>_. 2))
   \<and> build_negatives [0 \<mapsto> 0, 1 \<mapsto> 0, 2 \<mapsto> 1] [0] [1]
      (Some [[1, 9/10, 8/10], [9/10, 1, 1/2], [8/10, 1/2, 1]]) [0, 1, 2] 20 (\<lambda>_. 2)
    = Inr ([2], (\<lambda>_. 2))
   \<and> (2::nat) \<in> set [0, 1, 2]
   \<and> [[1, 9/10, 8/10], [9/10, 1, 1/2], [8/10, 1/2, 1 :: real]] ! 0 ! 2 + 0.25
       > [[1, 9/10, 8/10], [9/10, 1, 1/2], [8/10, 1/2, 1]] ! 0 ! 1
   \<and> ([0 \<mapsto> 0, 1 \<mapsto> 0, 2 \<mapsto> 1] :: nat \<rightharpoonup> nat) 2
       \<noteq> ([0 \<mapsto> 0, 1 \<mapsto> 0, 2 \<mapsto> 1] :: nat \<rightharpoonup> nat) 0"
proof -
  let ?i2c = "[0 \<mapsto> 0, 1 \<mapsto> 0, 2 \<mapsto> 1] :: nat \<rightharpoonup> nat"
  let ?S = "[[1, 9/10, 8/10], [9/10, 1, 1/2], [8/10, 1/2, 1]] :: matrix"
  let ?g = "(\<lambda>_. 2) :: rng"
  have u: "[0..<3::nat] = [0, 1, 2]" by code_simp
  have p: "possible_ids_of ?S [0, 1, 2] 0 1 = [0, 1, 2]"
    by (simp add: possible_ids_of_def intersect_def u)
  have d: "draw [0, 1, 2] ?g 0 = 2" by (simp add: draw_def)
  have "retry_loop ?i2c 0 [0, 1, 2] (Suc 19) ?g = Inr (Some (draw [0, 1, 2] ?g 0), rng_next ?g)"
    by (rule retry_loop_first [where cj = 1]) (simp_all add: draw_def)
  then have "retry_loop ?i2c 0 [0, 1, 2] 20 ?g = Inr (Some 2, ?g)"
    using d by (simp add: rng_next_def)
  then have r: "retry_loop ?i2c 0 (possible_ids_of ?S [0, 1, 2] 0 1) 20 ?g = Inr (Some 2, ?g)"
    by (simp only: p)
  have i: "?i2c 0 = Some 0" by simp
  have l: "\<not> (length ?S \<le> 0 \<or> length (?S ! 0) \<le> 1)" by simp
  have "negative_for_pair ?i2c ?S [0, 1, 2] 20 0 1 ?g = Inr ((2, True), ?g)"
    unfolding negative_for_pair_def by (simp only: i r l option.case sum.case prod.case if_False)
  then have "build_negatives_loop ?i2c ?S [0, 1, 2] 20 [(0, 1)] ?g = Inr ([(2, True)], ?g)"
    by (simp only: build_negatives_loop.simps sum.case prod.case)
  then have h: "build_negatives_appended ?i2c [0] [1] (Some ?S) [0, 1, 2] 20 ?g = Inr ([(2, True)], ?g)"
    by (simp add: build_negatives_appended_def)
  have k: "(0::nat) < length [(2::nat, True)]" by simp
  have a: "snd ([(2::nat, True)] ! 0)" by simp
  from build_negatives_mined [OF h k a] have
    "build_negatives ?i2c [0] [1] (Some ?S) [0, 1, 2] 20 ?g = Inr ([2], ?g)
     \<and> (2::nat) \<in> set [0, 1, 2] \<and> ?S ! 0 ! 2 + 0.25 > ?S ! 0 ! 1
     \<and> (\<exists>cN cA. ?i2c 2 = Some cN \<and> ?i2c 0 = Some cA \<and> cN \<noteq> cA)"
    by simp
  then have "build_negatives ?i2c [0] [1] (Some ?S) [0, 1, 2] 20 ?g = Inr ([2], ?g)
     \<and> (2::nat) \<in> set [0, 1, 2] \<and> ?S ! 0 ! 2 + 0.25 > ?S ! 0 ! 1 \<and> ?i2c 2 \<noteq> ?i2c 0"
    by auto
  with h show ?thesis by blast
qed

text \<open>
  C2, as stated, fails: an acceptable candidate can exist and \<open>build_negatives\<close> still
  falls back to a random pool member, because the candidates it draws from are not
  filtered by class and it gives up after \<open>num_retries\<close> draws. Here the anchor 0 and the
  positive 1 have class 0, the image 2 has class 1 and is acceptable, every draw returns
  the anchor itself, and after 20 draws the fallback returns the anchor.
\<close>

theorem build_negatives_fallback_counterexample:
  "acceptable [0 \<mapsto> 0, 1 \<mapsto> 0, 2 \<mapsto> 1] [[1, 9/10, 8/10], [9/10, 1, 1/2], [8/10, 1/2, 1]] [0, 1, 2] 0 1 2
   \<and> build_negatives_appended [0 \<mapsto> 0, 1 \<mapsto> 0, 2 \<mapsto> 1]
        [0] [1] (Some [[1, 9/10, 8/10], [9/10, 1, 1/2], [8/10, 1/2, 1]]) [0, 1, 2] 20 (\<lambda>_. 0)
      = Inr ([(0, False)], (\<lambda>_. 0))
   \<and> \<not> acceptable [0 \<mapsto> 0, 1 \<mapsto> 0, 2 \<mapsto> 1] [[1, 9/10, 8/10], [9/10, 1, 1/2], [8/10, 1/2, 1]] [0, 1, 2] 0 1 0"
proof -
  let ?i2c = "[0 \<mapsto> 0, 1 \<mapsto> 0, 2 \<mapsto> 1] :: nat \<rightharpoonup> nat"
  let ?S = "[[1, 9/10, 8/10], [9/10, 1, 1/2], [8/10, 1/2, 1]] :: matrix"
  let ?g = "(\<lambda>_. 0) :: rng"
  have a2: "acceptable ?i2c ?S [0, 1, 2] 0 1 2" by (simp add: acceptable_def)
  have a0: "\<not> acceptable ?i2c ?S [0, 1, 2] 0 1 0" by (simp add: acceptable_def)
  have u: "[0..<3::nat] = [0, 1, 2]" by code_simp
  have p: "possible_ids_of ?S [0, 1, 2] 0 1 = [0, 1, 2]"
    by (simp add: possible_ids_of_def intersect_def u)
  have d: "draw [0, 1, 2] ?g t = 0" for t by (simp add: draw_def)
  have "\<forall>t<20. ?i2c (draw [0, 1, 2] ?g t) = Some 0" using d by simp
  then have "retry_loop ?i2c 0 [0, 1, 2] 20 ?g = Inr (None, (\<lambda>i. ?g (i + 20)))"
    by (intro retry_loop_all_same) simp_all
  then have r: "retry_loop ?i2c 0 (possible_ids_of ?S [0, 1, 2] 0 1) 20 ?g = Inr (None, ?g)"
    by (simp only: p)
  have c: "choice [0, 1, 2] ?g = Inr (0, ?g)" by (simp add: choice_def randbelow_def rng_next_def)
  have i: "?i2c 0 = Some 0" by simp
  have l: "\<not> (length ?S \<le> 0 \<or> length (?S ! 0) \<le> 1)" by simp
  have "negative_for_pair ?i2c ?S [0, 1, 2] 20 0 1 ?g = Inr ((0, False), ?g)"
    unfolding negative_for_pair_def by (simp only: i r c l option.case sum.case prod.case if_False)
  then have "build_negatives_loop ?i2c ?S [0, 1, 2] 20 [(0, 1)] ?g = Inr ([(0, False)], ?g)"
    by (simp only: build_negatives_loop.simps sum.case prod.case)
  then have "build_negatives_appended ?i2c [0] [1] (Some ?S) [0, 1, 2] 20 ?g = Inr ([(0, False)], ?g)"
    by (simp add: build_negatives_appended_def)
  with a2 a0 show ?thesis by blast
qed

text \<open>
  C2, amended. For every anchor/positive pair, \<open>build_negatives\<close> draws up to
  \<open>num_retries\<close> times, each time uniformly, from the pool members \<open>N\<close> with
  \<open>S[A,N] + margin > S[A,P]\<close>, whatever their class, and takes the first draw whose class
  differs from the anchor's: that negative is an acceptable candidate. It falls back to a
  negative drawn uniformly at random from the pool when no pool member passes the
  similarity test or when every one of the draws has the anchor's class; this always
  happens when no acceptable candidate exists. The theorem is about \<open>negative_for_pair\<close>,
  the body of the loop over the pairs, on any random source; \<open>build_negatives\<close> applies it
  to every pair in turn (lemma \<open>build_negatives_loop_each\<close>).
\<close>

theorem negative_for_pair_selection:
  assumes "i2c A = Some cA" and "A < length S" and "P < length (S ! A)"
    and "set pool \<subseteq> dom i2c" and "pool \<noteq> []"
    and "possible = possible_ids_of S pool A P"
  shows "(\<forall>x. x \<in> set possible \<longleftrightarrow> x \<in> set pool \<and> x < length (S ! A) \<and> S ! A ! x + 0.25 > S ! A ! P)
       \<and> (\<exists>N appended g'. negative_for_pair i2c S pool n A P g = Inr ((N, appended), g')
           \<and> (appended \<longrightarrow> acceptable i2c S pool A P N
                 \<and> (\<exists>t<n. N = draw possible g t \<and> (\<forall>u<t. i2c (draw possible g u) = i2c A)))
           \<and> (\<not> appended \<longrightarrow> N \<in> set pool
                 \<and> N = draw pool g (if possible = [] then 0 else n)
                 \<and> (possible = [] \<or> (\<forall>t<n. i2c (draw possible g t) = i2c A)))
           \<and> ((\<forall>x \<in> set pool. \<not> acceptable i2c S pool A P x) \<longrightarrow> \<not> appended))"
proof -
  have ps: "\<forall>x. x \<in> set possible \<longleftrightarrow> x \<in> set pool \<and> x < length (S ! A) \<and> S ! A ! x + 0.25 > S ! A ! P"
    using assms(6) by (simp add: possible_ids_of_set)
  obtain N appended g' where r: "negative_for_pair i2c S pool n A P g = Inr ((N, appended), g')"
    and ap: "appended \<longrightarrow>
               (\<exists>t<n. N = draw possible g t \<and> i2c N \<noteq> Some cA
                  \<and> (\<forall>u<t. i2c (draw possible g u) = Some cA))"
    and fb: "\<not> appended \<longrightarrow>
               (possible = [] \<or> (\<forall>t<n. i2c (draw possible g t) = Some cA))
               \<and> N = draw pool g (if possible = [] then 0 else n)"
    using negative_for_pair_cases [OF assms, of n g] by blast
  have acc: "acceptable i2c S pool A P N" if appended
  proof -
    have "negative_for_pair i2c S pool n A P g = Inr ((N, True), g')" using r that by simp
    from negative_for_pair_appended [OF this] obtain cN cA' where
      f: "N \<in> set pool" "N < length (S ! A)" "S ! A ! N + 0.25 > S ! A ! P"
      and c: "i2c N = Some cN" "i2c A = Some cA'" "cN \<noteq> cA'"
      by blast
    from c have "i2c N \<noteq> i2c A" by simp
    with f show ?thesis unfolding acceptable_def by blast
  qed
  have inpool: "acceptable i2c S pool A P N \<Longrightarrow> N \<in> set pool"
    unfolding acceptable_def by blast
  have 1: "appended \<longrightarrow> acceptable i2c S pool A P N
             \<and> (\<exists>t<n. N = draw possible g t \<and> (\<forall>u<t. i2c (draw possible g u) = i2c A))"
    using ap acc assms(1) by auto
  have 2: "\<not> appended \<longrightarrow> N \<in> set pool
             \<and> N = draw pool g (if possible = [] then 0 else n)
             \<and> (possible = [] \<or> (\<forall>t<n. i2c (draw possible g t) = i2c A))"
    using fb assms(1,5) by (auto simp: draw_in_set)
  have 3: "(\<forall>x \<in> set pool. \<not> acceptable i2c S pool A P x) \<longrightarrow> \<not> appended"
    using acc inpool by blast
  show ?thesis using ps r 1 2 3 by blast
qed

theorem negative_for_pair_selection_witness:
  "([0 \<mapsto> 0, 1 \<mapsto> 0, 2 \<mapsto> 1] :: nat \<rightharpoonup> nat) 0 = Some 0
   \<and> (0::nat) < length [[1, 9/10, 8/10], [9/10, 1, 1/2], [8/10, 1/2, 1 :: real]]
   \<and> (1::nat) < length ([[1, 9/10, 8/10], [9/10, 1, 1/2], [8/10, 1/2, 1 :: real]] ! 0)
   \<and> set [0, 1, 2] \<subseteq> dom ([0 \<mapsto> 0, 1 \<mapsto> 0, 2 \<mapsto> 1] :: nat \<rightharpoonup> nat)
   \<and> [0, 1, 2 :: nat] \<noteq> []
   \<and> (\<exists>N appended g'.
         negative_for_pair [0 \<mapsto> 0, 1 \<mapsto> 0, 2 \<mapsto> 1]
           [[1, 9/10, 8/10], [9/10, 1, 1/2], [8/10, 1/2, 1]] [0, 1, 2] 20 0 1 (\<lambda>i. i)
         = Inr ((N, appended), g')
         \<and> (appended \<longrightarrow>
               acceptable [0 \<mapsto> 0, 1 \<mapsto> 0, 2 \<mapsto> 1]
                 [[1, 9/10, 8/10], [9/10, 1, 1/2], [8/10, 1/2, 1]] [0, 1, 2] 0 1 N)
         \<and> (\<not> appended \<longrightarrow> N \<in> set [0, 1, 2]))"
proof -
  let ?i2c = "[0 \<mapsto> 0, 1 \<mapsto> 0, 2 \<mapsto> 1] :: nat \<rightharpoonup> nat"
  let ?S = "[[1, 9/10, 8/10], [9/10, 1, 1/2], [8/10, 1/2, 1]] :: matrix"
  have h1: "?i2c 0 = Some 0" by simp
  have h2: "(0::nat) < length ?S" by simp
  have h3: "(1::nat) < length (?S ! 0)" by simp
  have h4: "set [0, 1, 2] \<subseteq> dom ?i2c" by simp
  have h5: "[0, 1, 2 :: nat] \<noteq> []" by simp
  from negative_for_pair_selection [OF h1 h2 h3 h4 h5 refl, of 20 "\<lambda>i. i"]
  have "\<exists>N appended g'. negative_for_pair ?i2c ?S [0, 1, 2] 20 0 1 (\<lambda>i. i) = Inr ((N, appended), g')
          \<and> (appended \<longrightarrow> acceptable ?i2c ?S [0, 1, 2] 0 1 N)
          \<and> (\<not> appended \<longrightarrow> N \<in> set [0, 1, 2])"
    by blast
  with h1 h2 h3 h4 h5 show ?thesis by blast
qed



text \<open>
  C3. \<open>recall_k(k, mode="embedding")\<close> should return the fraction of the test queries for
  which an image of the query's own class is among the \<open>k\<close> most similar images, the query
  itself excluded (\<open>recall_k_spec\<close>). The code excludes the first result of \<open>most_sim\<close>
  instead of the query, and the two differ when another image has the same normalised
  embedding as the query: here the images 0 and 1 have the same embedding and different
  classes, \<open>most_sim\<close> ranks the image 1 first for the query 0, the query itself stays in the
  retrieved list and counts as a hit, and the code returns 1/4 where the fraction is 0.
  When every query is ranked first, the code returns the fraction (lemma
  \<open>recall_k_ranked_first\<close>).
\<close>

theorem recall_k_query_not_first:
  "build_test_ids [0 \<mapsto> [0, 2], 1 \<mapsto> [1, 3], 2 \<mapsto> [4]] 0 3 = Inr [0, 2, 1, 3]
   \<and> most_sim [[1, 0], [1, 0], [0, 1], [3/5, 4/5], [-1, 0]] [] 0 2 ''cosine'' = Inr [(1, 1), (0, 1)]
   \<and> recall_k [0 \<mapsto> 0, 1 \<mapsto> 1, 2 \<mapsto> 0, 3 \<mapsto> 1, 4 \<mapsto> 2]
        [[1, 0], [1, 0], [0, 1], [3/5, 4/5], [-1, 0]] [] [0, 2, 1, 3] [] [] 1 ''embedding'' (\<lambda>_. 0)
      = Inr (1/4, (\<lambda>_. 0))
   \<and> retrieved_topk [[1, 0], [1, 0], [0, 1], [3/5, 4/5], [-1, 0]] 0 1 = [1]
   \<and> recall_k_spec [0 \<mapsto> 0, 1 \<mapsto> 1, 2 \<mapsto> 0, 3 \<mapsto> 1, 4 \<mapsto> 2]
        [[1, 0], [1, 0], [0, 1], [3/5, 4/5], [-1, 0]] [0, 2, 1, 3] 1 = 0"
proof -
  let ?E = "[[1, 0], [1, 0], [0, 1], [3/5, 4/5], [-1, 0]] :: matrix"
  let ?i2c = "[0 \<mapsto> 0, 1 \<mapsto> 1, 2 \<mapsto> 0, 3 \<mapsto> 1, 4 \<mapsto> 2] :: nat \<rightharpoonup> nat"
  let ?c2i = "[0 \<mapsto> [0, 2], 1 \<mapsto> [1, 3], 2 \<mapsto> [4]] :: nat \<rightharpoonup> nat list"
  let ?g = "(\<lambda>_. 0) :: rng"
  have u2: "[0..<2::nat] = [0, 1]" by code_simp
  have u5: "[0..<5::nat] = [0, 1, 2, 3, 4]" by code_simp
  have t: "build_test_ids ?c2i 0 3 = Inr [0, 2, 1, 3]"
    by (simp add: build_test_ids_def u2)
  have n10: "linalg_norm [1, 0] = 1" by (simp add: linalg_norm_def)
  have n01: "linalg_norm [0, 1] = 1" by (simp add: linalg_norm_def)
  have n34: "linalg_norm [3/5, 4/5] = 1" by (simp add: linalg_norm_def power2_eq_square)
  have cs0: "cosine_sims ?E [1, 0] = [1, 1, 0, 3/5, -1]"
    by (simp add: cosine_sims_def l2_normalize_def dot_def n10)
  have cs2: "cosine_sims ?E [0, 1] = [0, 0, 1, 4/5, 0]"
    by (simp add: cosine_sims_def l2_normalize_def dot_def n01)
  have cs3: "cosine_sims ?E [3/5, 4/5] = [3/5, 3/5, 4/5, 1, -3/5]"
    by (simp add: cosine_sims_def l2_normalize_def dot_def n34)
  have as0: "argsort [1, 1, 0, 3/5, -1] = [4, 2, 3, 0, 1]" by (simp add: argsort_def u5)
  have as2: "argsort [0, 0, 1, 4/5, 0] = [0, 1, 4, 3, 2]" by (simp add: argsort_def u5)
  have as3: "argsort [3/5, 3/5, 4/5, 1, -3/5] = [4, 0, 1, 2, 3]" by (simp add: argsort_def u5)
  have ms0: "most_sim ?E [] 0 2 ''cosine'' = Inr [(1, 1), (0, 1)]"
    using cs0 as0 n10 by (simp add: most_sim_def slice_to_def scored_def)
  have ms1: "most_sim ?E [] 1 2 ''cosine'' = Inr [(1, 1), (0, 1)]"
    using cs0 as0 n10 by (simp add: most_sim_def slice_to_def scored_def)
  have ms2: "most_sim ?E [] 2 2 ''cosine'' = Inr [(2, 1), (3, 4/5)]"
    using cs2 as2 n01 by (simp add: most_sim_def slice_to_def scored_def)
  have ms3: "most_sim ?E [] 3 2 ''cosine'' = Inr [(3, 1), (2, 4/5)]"
    using cs3 as3 n34 by (simp add: most_sim_def slice_to_def scored_def)
  have fc0: "found_classes_of ?i2c ?E [] [] [] 1 ''embedding'' 0 ?g = Inr ([0], ?g)"
    using ms0 by (simp add: found_classes_of_def)
  have fc1: "found_classes_of ?i2c ?E [] [] [] 1 ''embedding'' 1 ?g = Inr ([0], ?g)"
    using ms1 by (simp add: found_classes_of_def)
  have fc2: "found_classes_of ?i2c ?E [] [] [] 1 ''embedding'' 2 ?g = Inr ([1], ?g)"
    using ms2 by (simp add: found_classes_of_def)
  have fc3: "found_classes_of ?i2c ?E [] [] [] 1 ''embedding'' 3 ?g = Inr ([0], ?g)"
    using ms3 by (simp add: found_classes_of_def)
  have lp: "recall_loop ?i2c ?E [] [] [] 1 ''embedding'' [0, 2, 1, 3] 0 ?g = Inr (1, ?g)"
    using fc0 fc1 fc2 fc3 by simp
  have rk: "recall_k ?i2c ?E [] [0, 2, 1, 3] [] [] 1 ''embedding'' ?g = Inr (1/4, ?g)"
    using lp by (simp add: recall_k_def)
  have r0: "retrieved_topk ?E 0 1 = [1]" using cs0 as0 by (simp add: retrieved_topk_def)
  have r1: "retrieved_topk ?E 1 1 = [0]" using cs0 as0 by (simp add: retrieved_topk_def)
  have r2: "retrieved_topk ?E 2 1 = [3]" using cs2 as2 by (simp add: retrieved_topk_def)
  have r3: "retrieved_topk ?E 3 1 = [2]" using cs3 as3 by (simp add: retrieved_topk_def)
  have sp: "recall_k_spec ?i2c ?E [0, 2, 1, 3] 1 = 0"
    using r0 r1 r2 r3 by (simp add: recall_k_spec_def)
  from t ms0 rk r0 sp show ?thesis by blast
qed

text \<open>
  C9, as stated, fails when the negative pool is smaller than the batch: \<open>random.sample\<close>
  raises ValueError and no batch is produced. Three pairs, batches of three, a pool of two
  images:
\<close>

theorem TripletGenerator_small_pool_counterexample:
  "(3::nat) \<le> length [0, 0, 1 :: nat]
   \<and> TripletGenerator_len (TripletGenerator_init [0, 0, 1] [1, 2, 2] 3 [10, 11, 12, 13, 14 :: nat] [3, 4])
       = Inr 1
   \<and> TripletGenerator_getitem
         (TripletGenerator_init [0, 0, 1] [1, 2, 2] 3 [10, 11, 12, 13, 14 :: nat] [3, 4]) 0 (\<lambda>_. 0)
       = Inl ValueError"
  by (simp add: TripletGenerator_len_def TripletGenerator_init_def TripletGenerator_getitem_def
      slice_def sample_def)

text \<open>
  C9, amended. For every \<open>TripletGenerator\<close> built from \<open>num_samples\<close> anchor/positive
  pairs of image ids, a batch size \<open>b\<close> with \<open>1 \<le> b \<le> num_samples\<close> and a negative pool of
  at least \<open>b\<close> image ids, the generator has exactly \<open>num_samples // b\<close> batches and every
  batch contains exactly \<open>b\<close> anchors, \<open>b\<close> positives and \<open>b\<close> negatives; the batch
  \<open>batch_index\<close> holds the pairs at the positions \<open>batch_index * b\<close> up to
  \<open>(batch_index + 1) * b\<close>, which all lie below \<open>num_samples - num_samples mod b\<close>, so the
  trailing \<open>num_samples mod b\<close> pairs are in no batch.
\<close>

theorem TripletGenerator_batches:
  assumes "1 \<le> b" and "b \<le> length Xa_train" and "length Xp_train = length Xa_train"
    and "b \<le> length neg"
    and "\<forall>i \<in> set Xa_train \<union> set Xp_train \<union> set neg. i < length all_imgs"
    and "self = TripletGenerator_init Xa_train Xp_train b all_imgs neg"
  shows "TripletGenerator_len self = Inr (length Xa_train div b)
       \<and> (\<forall>batch_index < length Xa_train div b.
            \<exists>a p n g'. TripletGenerator_getitem self batch_index g
                          = Inr (([a, p, n], replicate b 0), g')
              \<and> length a = b \<and> length p = b \<and> length n = b
              \<and> a = map ((!) all_imgs) (map ((!) Xa_train) [batch_index * b..<(batch_index + 1) * b])
              \<and> p = map ((!) all_imgs) (map ((!) Xp_train) [batch_index * b..<(batch_index + 1) * b])
              \<and> set n \<subseteq> (!) all_imgs ` set neg
              \<and> (batch_index + 1) * b \<le> length Xa_train - length Xa_train mod b)"
proof (intro conjI allI impI)
  show "TripletGenerator_len self = Inr (length Xa_train div b)"
    using assms(1,6) by (simp add: TripletGenerator_len_def TripletGenerator_init_def)
next
  fix batch_index assume bi: "batch_index < length Xa_train div b"
  let ?low = "batch_index * b" and ?high = "(batch_index + 1) * b"
  let ?ia = "map ((!) Xa_train) [?low..<?high]" and ?ip = "map ((!) Xp_train) [?low..<?high]"
  have b0: "0 < b" using assms(1) by simp
  have bound: "?high \<le> length Xa_train - length Xa_train mod b" using b0 bi by (rule batch_bound)
  then have hi: "?high \<le> length Xa_train" by simp
  have lo: "?low \<le> ?high" by simp
  have sa: "slice ?low ?high Xa_train = ?ia" using lo hi by (rule slice_nth)
  have sp: "slice ?low ?high Xp_train = ?ip" using lo hi assms(3) by (simp add: slice_nth)
  have la: "length ?ia = b" and lp: "length ?ip = b" by simp_all
  obtain s g' where sm: "sample neg (int b) g = Inr (s, g')" and sl: "length s = b"
    and ss: "set s \<subseteq> set neg"
    using sample_ok [of "int b" neg g] assms(4) by auto
  have ina: "\<forall>i \<in> set ?ia. i < length all_imgs" using assms(5) hi by auto
  have inp: "\<forall>i \<in> set ?ip. i < length all_imgs" using assms(3,5) hi by auto
  have inn: "\<forall>i \<in> set s. i < length all_imgs" using assms(5) ss by auto
  let ?a = "map ((!) all_imgs) ?ia" and ?p = "map ((!) all_imgs) ?ip" and ?n = "map ((!) all_imgs) s"
  have "TripletGenerator_getitem self batch_index g = Inr (([?a, ?p, ?n], replicate (length ?a) 0), g')"
    using assms(6) sa sp la sm index_all_ok [OF ina] index_all_ok [OF inp] index_all_ok [OF inn]
    by (simp add: TripletGenerator_getitem_def TripletGenerator_init_def Let_def)
  moreover have "length ?a = b" by simp
  ultimately have eq: "TripletGenerator_getitem self batch_index g = Inr (([?a, ?p, ?n], replicate b 0), g')"
    by (simp only:)
  have sn: "set ?n \<subseteq> (!) all_imgs ` set neg" using ss by auto
  show "\<exists>a p n g'. TripletGenerator_getitem self batch_index g = Inr (([a, p, n], replicate b 0), g')
          \<and> length a = b \<and> length p = b \<and> length n = b
          \<and> a = map ((!) all_imgs) (map ((!) Xa_train) [batch_index * b..<(batch_index + 1) * b])
          \<and> p = map ((!) all_imgs) (map ((!) Xp_train) [batch_index * b..<(batch_index + 1) * b])
          \<and> set n \<subseteq> (!) all_imgs ` set neg
          \<and> (batch_index + 1) * b \<le> length Xa_train - length Xa_train mod b"
    using eq la lp sl sn bound by (intro exI [of _ ?a] exI [of _ ?p] exI [of _ ?n] exI [of _ g']) simp
qed

theorem TripletGenerator_batches_witness:
  "(1::nat) \<le> 2 \<and> (2::nat) \<le> length [0, 0, 1 :: nat]
   \<and> length [1, 2, 2 :: nat] = length [0, 0, 1 :: nat] \<and> (2::nat) \<le> length [3, 4 :: nat]
   \<and> TripletGenerator_len (TripletGenerator_init [0, 0, 1] [1, 2, 2] 2 [10, 11, 12, 13, 14 :: nat] [3, 4])
       = Inr 1
   \<and> (\<exists>a p n g'.
         TripletGenerator_getitem
           (TripletGenerator_init [0, 0, 1] [1, 2, 2] 2 [10, 11, 12, 13, 14 :: nat] [3, 4]) 0 (\<lambda>_. 0)
         = Inr (([a, p, n], replicate 2 0), g')
         \<and> length a = 2 \<and> length p = 2 \<and> length n = 2 \<and> a = [10, 10] \<and> p = [11, 12])"
proof -
  let ?self = "TripletGenerator_init [0, 0, 1] [1, 2, 2] 2 [10, 11, 12, 13, 14 :: nat] [3, 4]"
  have h1: "(1::nat) \<le> 2" by simp
  have h2: "(2::nat) \<le> length [0, 0, 1 :: nat]" by simp
  have h3: "length [1, 2, 2 :: nat] = length [0, 0, 1 :: nat]" by simp
  have h4: "(2::nat) \<le> length [3, 4 :: nat]" by simp
  have h5: "\<forall>i \<in> set [0, 0, 1] \<union> set [1, 2, 2] \<union> set [3, 4].
              i < length [10, 11, 12, 13, 14 :: nat]" by simp
  have u: "[0..<2::nat] = [0, 1]" by code_simp
  have d: "length [0, 0, 1 :: nat] div 2 = 1" by simp
  note th = TripletGenerator_batches [OF h1 h2 h3 h4 h5 refl, of "\<lambda>_. 0"]
  from th have l: "TripletGenerator_len ?self = Inr 1" using d by simp
  from th d have "\<exists>a p n g'. TripletGenerator_getitem ?self 0 (\<lambda>_. 0)
                      = Inr (([a, p, n], replicate 2 0), g')
        \<and> length a = 2 \<and> length p = 2 \<and> length n = 2
        \<and> a = map ((!) [10, 11, 12, 13, 14]) (map ((!) [0, 0, 1]) [0 * 2..<(0 + 1) * 2])
        \<and> p = map ((!) [10, 11, 12, 13, 14]) (map ((!) [1, 2, 2]) [0 * 2..<(0 + 1) * 2])"
    by auto
  then have "\<exists>a p n g'. TripletGenerator_getitem ?self 0 (\<lambda>_. 0)
                      = Inr (([a, p, n], replicate 2 0), g')
        \<and> length a = 2 \<and> length p = 2 \<and> length n = 2 \<and> a = [10, 10] \<and> p = [11, 12]"
    using u by simp
  with h1 h2 h3 h4 l show ?thesis by blast
qed

text \<open>
  C10. \<open>recall_k\<close> divides by \<open>len(test_ids)\<close> without a guard. When at least one class of
  the test range has more than one image, \<open>test_ids\<close> is not empty, \<open>recall_k\<close> never
  raises ZeroDivisionError, and every value it returns lies between 0 and 1, in every
  mode. In the mode \<open>embedding\<close> it does return a value when every test query is an index
  of \<open>emb\<close> with a non-zero embedding and every index of \<open>emb\<close> is a key of
  \<open>id_to_classid\<close>.
\<close>

theorem recall_k_safe:
  assumes "build_test_ids c2i split_num num_classes = Inr test_ids"
    and "\<exists>c \<in> set [split_num..<num_classes - 1]. \<exists>is. c2i c = Some is \<and> 1 < length is"
  shows "test_ids \<noteq> []
       \<and> recall_k i2c emb pixelwise test_ids te tr k mode g \<noteq> Inl ZeroDivisionError
       \<and> (\<forall>r g'. recall_k i2c emb pixelwise test_ids te tr k mode g = Inr (r, g') \<longrightarrow> 0 \<le> r \<and> r \<le> 1)
       \<and> ((\<forall>q \<in> set test_ids. q < length emb \<and> linalg_norm (emb ! q) \<noteq> 0)
            \<and> (\<forall>i < length emb. i \<in> dom i2c) \<longrightarrow>
           (\<exists>r g'. recall_k i2c emb pixelwise test_ids te tr k ''embedding'' g = Inr (r, g')
              \<and> 0 \<le> r \<and> r \<le> 1))"
proof -
  have ne: "test_ids \<noteq> []"
    using assms test_ids_loop_nonempty [of c2i "[split_num..<num_classes - 1]" "[]" test_ids]
    by (simp add: build_test_ids_def)
  have nz: "recall_k i2c emb pixelwise test_ids te tr k mode g \<noteq> Inl ZeroDivisionError" for mode
  proof (cases "recall_loop i2c emb pixelwise te tr k mode test_ids 0 g")
    case (Inl e)
    then have "e \<noteq> ZeroDivisionError" by (rule recall_loop_err)
    with Inl show ?thesis by (simp add: recall_k_def)
  next
    case (Inr r)
    with ne show ?thesis by (cases r) (simp add: recall_k_def)
  qed
  have rng: "0 \<le> r \<and> r \<le> 1"
    if "recall_k i2c emb pixelwise test_ids te tr k mode g = Inr (r, g')" for r g' mode
  proof -
    from that ne obtain n where lp: "recall_loop i2c emb pixelwise te tr k mode test_ids 0 g = Inr (n, g')"
      and r: "r = real n / real (length test_ids)"
      by (auto simp: recall_k_def split: sum.splits prod.splits if_splits)
    have "n \<le> length test_ids" using recall_loop_bound [OF lp] by simp
    moreover have "0 < length test_ids" using ne by simp
    ultimately show ?thesis using r by simp
  qed
  have ret: "\<exists>r g'. recall_k i2c emb pixelwise test_ids te tr k ''embedding'' g = Inr (r, g')
               \<and> 0 \<le> r \<and> r \<le> 1"
    if a: "\<forall>q \<in> set test_ids. q < length emb \<and> linalg_norm (emb ! q) \<noteq> 0"
      and b: "\<forall>i < length emb. i \<in> dom i2c"
  proof -
    obtain n g' where "recall_loop i2c emb pixelwise te tr k ''embedding'' test_ids 0 g = Inr (n, g')"
      using recall_loop_embedding_returns [OF b a] by blast
    then have "recall_k i2c emb pixelwise test_ids te tr k ''embedding'' g =
               Inr (real n / real (length test_ids), g')"
      using ne by (simp add: recall_k_def)
    with rng show ?thesis by blast
  qed
  show ?thesis using ne nz rng ret by blast
qed

theorem recall_k_safe_witness:
  "build_test_ids [0 \<mapsto> [0, 2], 1 \<mapsto> [1, 3], 2 \<mapsto> [4]] 0 3 = Inr [0, 2, 1, 3]
   \<and> [0, 2, 1, 3 :: nat] \<noteq> []
   \<and> recall_k [0 \<mapsto> 0, 1 \<mapsto> 1, 2 \<mapsto> 0, 3 \<mapsto> 1, 4 \<mapsto> 2]
        [[1, 0], [1, 0], [0, 1], [3/5, 4/5], [-1, 0]] [] [0, 2, 1, 3] [] [] 1 ''embedding'' (\<lambda>_. 0)
      \<noteq> Inl ZeroDivisionError
   \<and> (\<exists>r g'. recall_k [0 \<mapsto> 0, 1 \<mapsto> 1, 2 \<mapsto> 0, 3 \<mapsto> 1, 4 \<mapsto> 2]
        [[1, 0], [1, 0], [0, 1], [3/5, 4/5], [-1, 0]] [] [0, 2, 1, 3] [] [] 1 ''embedding'' (\<lambda>_. 0)
      = Inr (r, g') \<and> 0 \<le> r \<and> r \<le> 1)"
proof -
  let ?E = "[[1, 0], [1, 0], [0, 1], [3/5, 4/5], [-1, 0]] :: matrix"
  let ?i2c = "[0 \<mapsto> 0, 1 \<mapsto> 1, 2 \<mapsto> 0, 3 \<mapsto> 1, 4 \<mapsto> 2] :: nat \<rightharpoonup> nat"
  let ?c2i = "[0 \<mapsto> [0, 2], 1 \<mapsto> [1, 3], 2 \<mapsto> [4]] :: nat \<rightharpoonup> nat list"
  have u2: "[0..<2::nat] = [0, 1]" by code_simp
  have h1: "build_test_ids ?c2i 0 3 = Inr [0, 2, 1, 3]" by (simp add: build_test_ids_def u2)
  have h2: "\<exists>c \<in> set [0..<3 - 1]. \<exists>is. ?c2i c = Some is \<and> 1 < length is"
    by (rule bexI [of _ 0]) simp_all
  have n10: "linalg_norm [1, 0] = 1" by (simp add: linalg_norm_def)
  have n01: "linalg_norm [0, 1] = 1" by (simp add: linalg_norm_def)
  have n34: "linalg_norm [3/5, 4/5] = 1" by (simp add: linalg_norm_def power2_eq_square)
  have w1: "\<forall>q \<in> set [0, 2, 1, 3]. q < length ?E \<and> linalg_norm (?E ! q) \<noteq> 0"
    using n10 n01 n34 by simp
  have w2: "\<forall>i < length ?E. i \<in> dom ?i2c" by (simp add: less_Suc_eq)
  note th = recall_k_safe [OF h1 h2, of ?i2c ?E "[]" "[]" "[]" 1 "''embedding''" "\<lambda>_. 0"]
  from th w1 w2 h1 show ?thesis by blast
qed

end
